theory Spec2Isabelle
  imports Main "HOL-Library.Word"
begin

unbundle bit_operations_syntax

section \<open>The circular buffer (src/modules/circularbuffer.h)\<close>

text \<open>
  \<^verbatim>\<open>CircularBuffer<T, BUFFER_SIZE>\<close> has three \<^verbatim>\<open>uint16_t\<close> members and an array of
  \<^verbatim>\<open>BUFFER_SIZE\<close> elements. The members are 16-bit words here, so every \<^verbatim>\<open>++\<close>,
  \<^verbatim>\<open>+=\<close> and \<^verbatim>\<open>-=\<close> wraps as in the source; the array is a list. The template
  parameter \<^verbatim>\<open>BUFFER_SIZE\<close> is the first argument \<open>N\<close> of every operation.
\<close>

record 'a CircularBuffer =
  writeHead :: "16 word"
  readHead :: "16 word"
  availableData :: "16 word"
  buffer :: "'a list"

text \<open>The constructor: all counters zero, the array value-initialised with \<open>z\<close>.\<close>

definition CircularBuffer_new :: "16 word \<Rightarrow> 'a \<Rightarrow> 'a CircularBuffer" where
  "CircularBuffer_new N z =
     \<lparr>writeHead = 0, readHead = 0, availableData = 0, buffer = replicate (unat N) z\<rparr>"

text \<open>\<^verbatim>\<open>head++; if (head >= BUFFER_SIZE) head = 0;\<close>\<close>

definition incrementOrResetHead :: "16 word \<Rightarrow> 16 word \<Rightarrow> 16 word" where
  "incrementOrResetHead N head = (let h = head + 1 in if h \<ge> N then 0 else h)"

definition availableSpace :: "16 word \<Rightarrow> 'a CircularBuffer \<Rightarrow> 16 word" where
  "availableSpace N rb = N - availableData rb"

definition isEmpty :: "'a CircularBuffer \<Rightarrow> bool" where
  "isEmpty rb = (availableData rb = 0)"

definition isFull :: "16 word \<Rightarrow> 'a CircularBuffer \<Rightarrow> bool" where
  "isFull N rb = (availableData rb = N)"

text \<open>
  The loop of \<^verbatim>\<open>push(const T* data, uint16_t size)\<close>:
  \<^verbatim>\<open>while (writeCount < size) { _buffer[_writeHead] = data[writeCount++];
  incrementOrResetHead(_writeHead); }\<close>. The caller's array is the list \<open>data\<close>.
\<close>

function push_loop ::
  "16 word \<Rightarrow> 'a list \<Rightarrow> 16 word \<Rightarrow> 16 word \<Rightarrow> 'a CircularBuffer \<Rightarrow> 16 word \<times> 'a CircularBuffer"
where
  "push_loop N data sz writeCount rb =
     (if writeCount < sz
      then push_loop N data sz (writeCount + 1)
             (rb\<lparr>buffer := (buffer rb)[unat (writeHead rb) := data ! unat writeCount],
                 writeHead := incrementOrResetHead N (writeHead rb)\<rparr>)
      else (writeCount, rb))"
  by pat_completeness auto
termination
proof (relation "measure (\<lambda>(N, data, sz, writeCount, rb). unat sz - unat writeCount)")
  show "wf (measure (\<lambda>(N, data, sz, writeCount, rb). unat sz - unat writeCount))"
    by simp
next
  fix N :: "16 word" and data :: "'a list" and sz writeCount :: "16 word"
    and rb :: "'a CircularBuffer"
  assume lt: "writeCount < sz"
  have "unat writeCount < unat sz"
    using lt by (simp add: word_less_nat_alt)
  moreover have "unat sz < 2 ^ 16"
    using unsigned_less [of sz] by simp
  ultimately have "unat (writeCount + 1) = Suc (unat writeCount)"
    by (simp add: unat_word_ariths)
  then show "((N, data, sz, writeCount + 1,
         rb\<lparr>buffer := (buffer rb)[unat (writeHead rb) := data ! unat writeCount],
            writeHead := incrementOrResetHead N (writeHead rb)\<rparr>),
        (N, data, sz, writeCount, rb))
       \<in> measure (\<lambda>(N, data, sz, writeCount, rb). unat sz - unat writeCount)"
    using \<open>unat writeCount < unat sz\<close> by simp
qed

declare push_loop.simps [simp del]

text \<open>
  \<^verbatim>\<open>push(const T* data, uint16_t size)\<close>: the size is clamped to the free space, the loop
  copies, and only then \<^verbatim>\<open>_availableData += writeCount\<close>. Returns the count and the ring.
\<close>

definition push_data ::
  "16 word \<Rightarrow> 'a list \<Rightarrow> 16 word \<Rightarrow> 'a CircularBuffer \<Rightarrow> 16 word \<times> 'a CircularBuffer"
where
  "push_data N data sz rb =
     (let sz' = (if sz > availableSpace N rb then availableSpace N rb else sz);
          (writeCount, rb') = push_loop N data sz' 0 rb
      in (writeCount, rb'\<lparr>availableData := availableData rb' + writeCount\<rparr>))"

text \<open>
  \<^verbatim>\<open>push(T data)\<close>: store at the write head, advance the write head, and count the element
  only while \<^verbatim>\<open>_availableData < BUFFER_SIZE\<close>. The read head is not mentioned.
\<close>

definition push :: "16 word \<Rightarrow> 'a \<Rightarrow> 'a CircularBuffer \<Rightarrow> 'a CircularBuffer" where
  "push N x rb =
     (let rb1 = rb\<lparr>buffer := (buffer rb)[unat (writeHead rb) := x]\<rparr>;
          rb2 = rb1\<lparr>writeHead := incrementOrResetHead N (writeHead rb1)\<rparr>
      in if availableData rb2 < N
         then rb2\<lparr>availableData := availableData rb2 + 1\<rparr>
         else rb2)"

text \<open>
  The loop of \<^verbatim>\<open>pull(T* data, uint16_t size)\<close>; the elements stored through the caller's
  pointer are collected, in order, in \<open>out\<close>.
\<close>

function pull_loop ::
  "16 word \<Rightarrow> 16 word \<Rightarrow> 16 word \<Rightarrow> 'a list \<Rightarrow> 'a CircularBuffer
     \<Rightarrow> 16 word \<times> 'a list \<times> 'a CircularBuffer"
where
  "pull_loop N sz readCount out rb =
     (if readCount < sz
      then pull_loop N sz (readCount + 1) (out @ [buffer rb ! unat (readHead rb)])
             (rb\<lparr>readHead := incrementOrResetHead N (readHead rb)\<rparr>)
      else (readCount, out, rb))"
  by pat_completeness auto
termination
proof (relation "measure (\<lambda>(N, sz, readCount, out, rb). unat sz - unat readCount)")
  show "wf (measure (\<lambda>(N, sz, readCount, out, rb). unat sz - unat readCount))"
    by simp
next
  fix N sz readCount :: "16 word" and out :: "'a list" and rb :: "'a CircularBuffer"
  assume lt: "readCount < sz"
  have "unat readCount < unat sz"
    using lt by (simp add: word_less_nat_alt)
  moreover have "unat sz < 2 ^ 16"
    using unsigned_less [of sz] by simp
  ultimately have "unat (readCount + 1) = Suc (unat readCount)"
    by (simp add: unat_word_ariths)
  then show "((N, sz, readCount + 1, out @ [buffer rb ! unat (readHead rb)],
         rb\<lparr>readHead := incrementOrResetHead N (readHead rb)\<rparr>),
        (N, sz, readCount, out, rb))
       \<in> measure (\<lambda>(N, sz, readCount, out, rb). unat sz - unat readCount)"
    using \<open>unat readCount < unat sz\<close> by simp
qed

declare pull_loop.simps [simp del]

definition pull_data ::
  "16 word \<Rightarrow> 16 word \<Rightarrow> 'a CircularBuffer \<Rightarrow> 16 word \<times> 'a list \<times> 'a CircularBuffer"
where
  "pull_data N sz rb =
     (let sz' = (if sz > availableData rb then availableData rb else sz);
          (readCount, out, rb') = pull_loop N sz' 0 [] rb
      in (readCount, out, rb'\<lparr>availableData := availableData rb' - readCount\<rparr>))"

text \<open>
  \<^verbatim>\<open>pull()\<close>: reads at the read head and advances it whether or not the ring is empty; the
  count goes down only while it is positive.
\<close>

definition pull :: "16 word \<Rightarrow> 'a CircularBuffer \<Rightarrow> 'a \<times> 'a CircularBuffer" where
  "pull N rb =
     (let x = buffer rb ! unat (readHead rb);
          rb1 = rb\<lparr>readHead := incrementOrResetHead N (readHead rb)\<rparr>
      in (x, if availableData rb1 > 0
             then rb1\<lparr>availableData := availableData rb1 - 1\<rparr>
             else rb1))"

definition read :: "'a CircularBuffer \<Rightarrow> 'a" where
  "read rb = buffer rb ! unat (readHead rb)"

definition flush :: "'a CircularBuffer \<Rightarrow> 'a CircularBuffer" where
  "flush rb = rb\<lparr>writeHead := 0, readHead := 0, availableData := 0\<rparr>"

subsection \<open>The ring as a queue\<close>

text \<open>
  The class keeps \<^verbatim>\<open>BUFFER_SIZE\<close> positive, the array of that length, both heads inside
  it and the count at most \<^verbatim>\<open>BUFFER_SIZE\<close>: under \<open>ring_ok\<close> every array access of the
  model is in range. The heads are consistent when the write head is the read head advanced
  by the count. The elements a consumer gets next are those in the \<open>availableData\<close> slots
  from the read head on.
\<close>

definition ring_ok :: "16 word \<Rightarrow> 'a CircularBuffer \<Rightarrow> bool" where
  "ring_ok N rb =
     (0 < N \<and> length (buffer rb) = unat N \<and> writeHead rb < N \<and> readHead rb < N
      \<and> availableData rb \<le> N)"

definition heads_consistent :: "16 word \<Rightarrow> 'a CircularBuffer \<Rightarrow> bool" where
  "heads_consistent N rb =
     (unat (writeHead rb) = (unat (readHead rb) + unat (availableData rb)) mod unat N)"

definition slots :: "16 word \<Rightarrow> 'a CircularBuffer \<Rightarrow> nat \<Rightarrow> 'a list" where
  "slots N rb k = map (\<lambda>i. buffer rb ! ((unat (readHead rb) + i) mod unat N)) [0..<k]"

definition queued :: "16 word \<Rightarrow> 'a CircularBuffer \<Rightarrow> 'a list" where
  "queued N rb = slots N rb (unat (availableData rb))"

text \<open>The elements that \<open>k\<close> successive calls of \<^verbatim>\<open>pull()\<close> return, and the ring after them.\<close>

fun pull_many :: "16 word \<Rightarrow> nat \<Rightarrow> 'a CircularBuffer \<Rightarrow> 'a list \<times> 'a CircularBuffer" where
  "pull_many N 0 rb = ([], rb)"
| "pull_many N (Suc k) rb =
     (let (x, rb1) = pull N rb; (xs, rb2) = pull_many N k rb1 in (x # xs, rb2))"

section \<open>The modem session engine (cicada/commdevices/simcommdevice.cpp)\<close>

subsection \<open>Types and constants declared outside the sources\<close>

text \<open>
  Modelled from the spec: the type \<^verbatim>\<open>Size\<close> (cicada/types.h is not among the sources).
  The interface of section 6 of the specification returns every byte count as \<^verbatim>\<open>u16\<close>,
  and \<^verbatim>\<open>prepareSending\<close> prints a \<^verbatim>\<open>Size\<close> into six chars, so \<^verbatim>\<open>Size\<close> is a 16-bit
  unsigned word. Bytes (\<^verbatim>\<open>uint8_t\<close> and \<^verbatim>\<open>char\<close>) are \<^typ>\<open>char\<close>.
\<close>

type_synonym Size = "16 word"

abbreviation NUL :: char where "NUL \<equiv> CHR 0x00"
abbreviation QUOTE :: char where "QUOTE \<equiv> CHR 0x22"
abbreviation LF :: char where "LF \<equiv> CHR 0x0A"
abbreviation CR :: char where "CR \<equiv> CHR 0x0D"

text \<open>
  Modelled from the spec: the connection phase (the enumeration is declared in
  ipcommdevice.h, not among the sources). Section 3 of the specification names the phases.
\<close>

datatype ConnectState =
  notConnected | connecting | connected | connectionError | dnsError | generalError | intermediate

text \<open>
  Modelled from the spec: the flag masks of \<^verbatim>\<open>_stateBooleans\<close> (simcommdevice.h is not among
  the sources). Section 3 of the specification lists seven independently settable flags packed
  into one word; each gets a bit of its own, in the order of that list. No theorem below depends
  on which bit a flag has.
\<close>

definition LINE_READ :: "8 word" where "LINE_READ = 0x01"
definition IP_CONNECTED :: "8 word" where "IP_CONNECTED = 0x02"
definition DATA_PENDING :: "8 word" where "DATA_PENDING = 0x04"
definition DISCONNECT_PENDING :: "8 word" where "DISCONNECT_PENDING = 0x08"
definition CONNECT_PENDING :: "8 word" where "CONNECT_PENDING = 0x10"
definition RESET_PENDING :: "8 word" where "RESET_PENDING = 0x20"
definition SERIAL_LOCKED :: "8 word" where "SERIAL_LOCKED = 0x40"

text \<open>\<^verbatim>\<open>#define MIN_SPACE_AVAILABLE 22\<close>\<close>

definition MIN_SPACE_AVAILABLE :: Size where "MIN_SPACE_AVAILABLE = 22"

subsection \<open>The serial driver\<close>

text \<open>
  Modelled from the spec: the buffered serial driver \<^verbatim>\<open>IBufferedSerial\<close>, an external
  collaborator whose code is not among the sources. Sections 5 and 6 of the specification give
  its interface and say that its two rings follow the circular-buffer contract. What the engine
  can observe of it is modelled: \<open>rxq\<close> holds the received bytes not yet read, oldest first;
  \<open>txq\<close> is the sequence of bytes the driver has accepted for transmission; \<open>txFree\<close> is what
  \<^verbatim>\<open>spaceAvailable()\<close> reports. A string write accepts what fits (a bulk push is clamped by
  the free space), a single-byte write is always accepted (a single push never fails).
\<close>

record BufferedSerial =
  rxq :: string
  txq :: string
  txFree :: Size

definition serial_bytesAvailable :: "BufferedSerial \<Rightarrow> Size" where
  "serial_bytesAvailable ser = word_of_nat (length (rxq ser))"

definition serial_spaceAvailable :: "BufferedSerial \<Rightarrow> Size" where
  "serial_spaceAvailable ser = txFree ser"

definition serial_flushReceiveBuffers :: "BufferedSerial \<Rightarrow> BufferedSerial" where
  "serial_flushReceiveBuffers ser = ser\<lparr>rxq := []\<rparr>"

text \<open>\<^verbatim>\<open>read()\<close>: the oldest byte. Every caller asks \<^verbatim>\<open>bytesAvailable()\<close> first.\<close>

definition serial_read_byte :: "BufferedSerial \<Rightarrow> char \<times> BufferedSerial" where
  "serial_read_byte ser =
     (case rxq ser of [] \<Rightarrow> (NUL, ser) | c # cs \<Rightarrow> (c, ser\<lparr>rxq := cs\<rparr>))"

text \<open>\<^verbatim>\<open>read(buf, maxSize)\<close>: the bytes stored into \<^verbatim>\<open>buf\<close>, and the updated driver state.\<close>

definition serial_read :: "Size \<Rightarrow> BufferedSerial \<Rightarrow> string \<times> BufferedSerial" where
  "serial_read maxSize ser =
     (let n = min (unat maxSize) (length (rxq ser))
      in (take n (rxq ser), ser\<lparr>rxq := drop n (rxq ser)\<rparr>))"

text \<open>\<^verbatim>\<open>write(const uint8_t*)\<close> of a NUL-terminated string: the bytes accepted, and the driver.\<close>

definition serial_write :: "string \<Rightarrow> BufferedSerial \<Rightarrow> string \<times> BufferedSerial" where
  "serial_write bytes ser =
     (let n = min (length bytes) (unat (txFree ser))
      in (take n bytes, ser\<lparr>txq := txq ser @ take n bytes, txFree := txFree ser - word_of_nat n\<rparr>))"

definition serial_write_byte :: "char \<Rightarrow> BufferedSerial \<Rightarrow> BufferedSerial" where
  "serial_write_byte c ser =
     ser\<lparr>txq := txq ser @ [c], txFree := (if txFree ser = 0 then 0 else txFree ser - 1)\<rparr>"

text \<open>Single-byte writes of a sequence of bytes, one call each.\<close>

definition serial_write_bytes :: "string \<Rightarrow> BufferedSerial \<Rightarrow> BufferedSerial" where
  "serial_write_bytes bytes ser = foldl (\<lambda>s c. serial_write_byte c s) ser bytes"

subsection \<open>C strings and the library calls\<close>

text \<open>The string a \<^verbatim>\<open>char*\<close> points to: the chars before the first NUL.\<close>

definition cstr :: "string \<Rightarrow> string" where
  "cstr xs = takeWhile (\<lambda>c. c \<noteq> NUL) xs"

text \<open>
  \<^verbatim>\<open>strncmp(a, b, n) == 0\<close>: the first \<open>n\<close> chars agree, a NUL on both sides ending the
  comparison early.
\<close>

definition strncmp_eq :: "string \<Rightarrow> string \<Rightarrow> nat \<Rightarrow> bool" where
  "strncmp_eq a b n = (take n (cstr a) = take n (cstr b))"

definition isspace :: "char \<Rightarrow> bool" where
  "isspace c = (c = CHR 0x20 \<or> c = CHR 0x09 \<or> c = LF \<or> c = CHR 0x0B \<or> c = CHR 0x0C \<or> c = CR)"

definition isdigit :: "char \<Rightarrow> bool" where
  "isdigit c = ((48 :: nat) \<le> of_char c \<and> of_char c \<le> (57 :: nat))"

definition digit_val :: "char \<Rightarrow> nat" where
  "digit_val c = of_char c - 48"

definition digit_char :: "nat \<Rightarrow> char" where
  "digit_char d = char_of (48 + d)"

definition INT_MAX :: int where "INT_MAX = 2147483647"

text \<open>
  \<^verbatim>\<open>sscanf(str, "%d", &v)\<close>: white space is skipped, an optional sign and then decimal digits
  are converted. The result is \<open>None\<close> when no digit is there (nothing is stored in \<^verbatim>\<open>v\<close>) or
  when the number does not fit an \<^verbatim>\<open>int\<close> (32 bits on the targets of the library), which
  the C standard leaves undefined.
\<close>

definition sscanf_d :: "string \<Rightarrow> int option" where
  "sscanf_d str =
     (let s1 = dropWhile isspace str;
          neg = (s1 \<noteq> [] \<and> hd s1 = CHR ''-'');
          s2 = (if s1 \<noteq> [] \<and> (hd s1 = CHR ''-'' \<or> hd s1 = CHR ''+'') then tl s1 else s1);
          ds = takeWhile isdigit s2;
          v = int (foldl (\<lambda>a c. 10 * a + digit_val c) 0 ds);
          r = (if neg then - v else v)
      in if ds = [] \<or> r > INT_MAX \<or> r < - INT_MAX - 1 then None else Some r)"

text \<open>The decimal rendering that \<^verbatim>\<open>"%u"\<close> produces.\<close>

fun utoa :: "nat \<Rightarrow> string" where
  "utoa n = (if n < 10 then [digit_char n] else utoa (n div 10) @ [digit_char (n mod 10)])"

declare utoa.simps [simp del]

text \<open>
  \<^verbatim>\<open>snprintf(buf, size, "%u", v)\<close>: at most \<open>size - 1\<close> chars of the rendering are stored
  (and a NUL after them).
\<close>

definition snprintf_u :: "nat \<Rightarrow> nat \<Rightarrow> string" where
  "snprintf_u sz v = take (sz - 1) (utoa v)"

subsection \<open>The device state\<close>

text \<open>
  The members of \<^verbatim>\<open>SimCommDevice\<close> and of its base class that the functions below use. The
  two application rings are circular buffers with their sizes; \<^verbatim>\<open>_lineBuffer\<close> is an array
  of \<^verbatim>\<open>LINE_MAX_LENGTH + 1\<close> chars; \<^verbatim>\<open>_waitForReply\<close> is a pointer to a string literal or
  \<^verbatim>\<open>NULL\<close>; \<^verbatim>\<open>_ip\<close> is an array of chars. \<^verbatim>\<open>_lbFill\<close> is a natural number: it stays below
  \<^verbatim>\<open>LINE_MAX_LENGTH\<close> between calls, so its increment never wraps.
\<close>

record SimCommDevice =
  serial :: BufferedSerial
  readBuffer :: "char CircularBuffer"
  readBufferSize :: Size
  writeBuffer :: "char CircularBuffer"
  writeBufferSize :: Size
  lineBuffer :: string
  lbFill :: nat
  sendState :: "8 word"
  replyState :: "8 word"
  connectState :: ConnectState
  bytesToWrite :: Size
  bytesToReceive :: Size
  bytesToRead :: Size
  waitForReply :: "string option"
  stateBooleans :: "8 word"
  rssi :: "8 word"
  ip :: string
  apn :: "string option"

text \<open>
  \<^verbatim>\<open>resetStates()\<close>. The two lines that reset the identity buffer are left out: none of the
  functions below reads it.
\<close>

definition resetStates :: "SimCommDevice \<Rightarrow> SimCommDevice" where
  "resetStates s =
     s\<lparr>serial := serial_flushReceiveBuffers (serial s),
       readBuffer := flush (readBuffer s),
       writeBuffer := flush (writeBuffer s),
       lbFill := 0, sendState := 0, replyState := 0, connectState := notConnected,
       bytesToWrite := 0, bytesToReceive := 0, bytesToRead := 0,
       waitForReply := None, stateBooleans := LINE_READ, rssi := 99\<rparr>"

subsection \<open>The serial lock\<close>

definition serialLock :: "SimCommDevice \<Rightarrow> bool \<times> SimCommDevice" where
  "serialLock s =
     (if waitForReply s \<noteq> None \<or> replyState s \<noteq> 0
      then (False, s)
      else (True, s\<lparr>stateBooleans := stateBooleans s OR SERIAL_LOCKED\<rparr>))"

definition serialUnlock :: "SimCommDevice \<Rightarrow> SimCommDevice" where
  "serialUnlock s = s\<lparr>stateBooleans := stateBooleans s AND NOT SERIAL_LOCKED\<rparr>"

text \<open>
  \<^verbatim>\<open>serialWrite(char* data)\<close> returns the number of bytes written, \<^verbatim>\<open>serialRead(char* data,
  Size maxSize)\<close> the number of bytes read; the second component of the result of
  \<open>serialRead\<close> is what was stored into \<^verbatim>\<open>data\<close>.
\<close>

definition serialWrite :: "string \<Rightarrow> SimCommDevice \<Rightarrow> Size \<times> SimCommDevice" where
  "serialWrite data s =
     (if stateBooleans s AND SERIAL_LOCKED \<noteq> 0
      then (let (written, ser) = serial_write data (serial s)
            in (word_of_nat (length written), s\<lparr>serial := ser\<rparr>))
      else (0, s))"

definition serialRead :: "Size \<Rightarrow> SimCommDevice \<Rightarrow> Size \<times> string \<times> SimCommDevice" where
  "serialRead maxSize s =
     (if stateBooleans s AND SERIAL_LOCKED \<noteq> 0
      then (let (stored, ser) = serial_read maxSize (serial s)
            in (word_of_nat (length stored), stored, s\<lparr>serial := ser\<rparr>))
      else (0, [], s))"

subsection \<open>The line reader\<close>

text \<open>
  The loop of \<^verbatim>\<open>fillLineBuffer()\<close>; \<^verbatim>\<open>LINE_MAX_LENGTH\<close> (declared in simcommdevice.h, not
  among the sources) is the argument \<open>L\<close>.
\<close>

function fillLineBuffer_loop :: "nat \<Rightarrow> SimCommDevice \<Rightarrow> bool \<times> SimCommDevice" where
  "fillLineBuffer_loop L s =
     (if serial_bytesAvailable (serial s) \<noteq> 0
      then (let (c, ser) = serial_read_byte (serial s);
                s1 = s\<lparr>serial := ser, lineBuffer := (lineBuffer s)[lbFill s := c],
                       lbFill := lbFill s + 1\<rparr>
            in if c = LF \<or> c = CHR ''>'' \<or> lbFill s1 = L
               then (True, s1\<lparr>lineBuffer := (lineBuffer s1)[lbFill s1 := NUL], lbFill := 0\<rparr>)
               else fillLineBuffer_loop L s1)
      else (False, s))"
  by pat_completeness auto
termination
  by (relation "measure (\<lambda>(L, s). length (rxq (serial s)))")
    (auto simp: serial_read_byte_def serial_bytesAvailable_def split: list.splits)

declare fillLineBuffer_loop.simps [simp del]

definition fillLineBuffer :: "nat \<Rightarrow> SimCommDevice \<Rightarrow> bool \<times> SimCommDevice" where
  "fillLineBuffer L s =
     (if stateBooleans s AND LINE_READ \<noteq> 0 then fillLineBuffer_loop L s else (False, s))"

subsection \<open>The response parsers\<close>

text \<open>
  What the C standard leaves undefined is a value of its own: reading a variable that was never
  written, and indexing past the end of an array.
\<close>

datatype fault = UninitialisedRead | OutOfBounds | NoReturn

text \<open>
  The three loops of \<^verbatim>\<open>parseDnsReply()\<close>. The counters \<^verbatim>\<open>i\<close> and \<^verbatim>\<open>q\<close> are \<^verbatim>\<open>uint8_t\<close>:
  they are 8-bit words, and \<^verbatim>\<open>i++\<close> and \<^verbatim>\<open>q++\<close> wrap from 255 to 0. A loop whose index
  wraps before it meets what it looks for may run forever, so each loop is a partial function
  whose value is \<open>None\<close> when it does not return; reading past the end of the array is the
  fault \<open>OutOfBounds\<close>.

  \<^verbatim>\<open>while (_lineBuffer[i]) { if (_lineBuffer[i++] == '\"') q++; }\<close>
\<close>

partial_function (option) dns_count :: "string \<Rightarrow> 8 word \<Rightarrow> 8 word \<Rightarrow> (fault + 8 word) option"
where
  "dns_count lb i q =
     (if unat i < length lb
      then (if lb ! unat i = NUL then Some (Inr q)
            else dns_count lb (i + 1) (if lb ! unat i = QUOTE then q + 1 else q))
      else Some (Inl OutOfBounds))"

text \<open>\<^verbatim>\<open>while (q < 3) if (_lineBuffer[i++] == '\"') q++;\<close> This loop does not look for the NUL.\<close>

partial_function (option) dns_skip :: "string \<Rightarrow> 8 word \<Rightarrow> 8 word \<Rightarrow> (fault + 8 word) option"
where
  "dns_skip lb i q =
     (if q < 3
      then (if unat i < length lb
            then dns_skip lb (i + 1) (if lb ! unat i = QUOTE then q + 1 else q)
            else Some (Inl OutOfBounds))
      else Some (Inr i))"

text \<open>
  \<^verbatim>\<open>while (_lineBuffer[i]) { if (_lineBuffer[i] == '\"') _lineBuffer[i] = '\0'; i++; }\<close>
\<close>

partial_function (option) dns_blank :: "string \<Rightarrow> 8 word \<Rightarrow> (fault + string) option"
where
  "dns_blank lb i =
     (if unat i < length lb
      then (if lb ! unat i = NUL then Some (Inr lb)
            else dns_blank (if lb ! unat i = QUOTE then lb[unat i := NUL] else lb) (i + 1))
      else Some (Inl OutOfBounds))"

text \<open>
  \<^verbatim>\<open>strcpy(dst, src)\<close> into an array: the chars of the C string at \<open>src\<close> and the NUL after
  them replace the first chars of \<open>dst\<close>. It is a fault when \<open>src\<close> holds no NUL or when the
  string and its NUL do not fit the array.
\<close>

definition strcpy :: "string \<Rightarrow> string \<Rightarrow> fault + string" where
  "strcpy dst src =
     (if NUL \<in> set src \<and> length (cstr src) < length dst
      then Inr (cstr src @ NUL # drop (length (cstr src) + 1) dst)
      else Inl OutOfBounds)"

text \<open>
  \<^verbatim>\<open>parseDnsReply()\<close>. A loop that does not return makes the call not return: the fault
  \<open>NoReturn\<close>. \<^verbatim>\<open>tmpStr\<close> points at index \<open>i\<close> of the line buffer. The array \<^verbatim>\<open>_ip\<close> is
  declared in ipcommdevice.h, not among the sources: its size is the length of the list
  \<open>ip s\<close>, whatever it is.
\<close>

definition parseDnsReply :: "SimCommDevice \<Rightarrow> fault + bool \<times> SimCommDevice" where
  "parseDnsReply s =
     (if strncmp_eq (lineBuffer s) ''+CDNSGIP: 1'' 11
      then (case dns_count (lineBuffer s) 0 0 of
              None \<Rightarrow> Inl NoReturn
            | Some (Inl f) \<Rightarrow> Inl f
            | Some (Inr q) \<Rightarrow>
                if q < 4 \<or> q > 10
                then Inr (False, s\<lparr>connectState := dnsError\<rparr>)
                else (case dns_skip (lineBuffer s) 0 0 of
                        None \<Rightarrow> Inl NoReturn
                      | Some (Inl f) \<Rightarrow> Inl f
                      | Some (Inr i) \<Rightarrow>
                          (case dns_blank (lineBuffer s) i of
                             None \<Rightarrow> Inl NoReturn
                           | Some (Inl f) \<Rightarrow> Inl f
                           | Some (Inr lb') \<Rightarrow>
                               (case strcpy (ip s) (drop (unat i) lb') of
                                  Inl f \<Rightarrow> Inl f
                                | Inr ip' \<Rightarrow> Inr (True, s\<lparr>lineBuffer := lb', ip := ip'\<rparr>)))))
      else if strncmp_eq (lineBuffer s) ''+CDNSGIP: 0'' 11
      then Inr (False, s\<lparr>stateBooleans := stateBooleans s OR RESET_PENDING\<rparr>)
      else Inr (False, s))"

text \<open>
  \<^verbatim>\<open>parseCiprxget4()\<close> and \<^verbatim>\<open>parseCiprxget2()\<close>. The result of \<^verbatim>\<open>sscanf\<close> is not checked in
  the source: when nothing was converted the local \<^verbatim>\<open>int\<close> is read without having been
  written. The \<^verbatim>\<open>int\<close> is added to a \<^verbatim>\<open>Size\<close>, that is modulo \<open>2 ^ 16\<close>.
\<close>

definition parseCiprxget4 :: "SimCommDevice \<Rightarrow> fault + bool \<times> SimCommDevice" where
  "parseCiprxget4 s =
     (if strncmp_eq (lineBuffer s) ''+CIPRXGET: 4,0,'' 15
      then (case sscanf_d (cstr (drop 15 (lineBuffer s))) of
              None \<Rightarrow> Inl UninitialisedRead
            | Some v \<Rightarrow> Inr (True, s\<lparr>bytesToReceive := bytesToReceive s + word_of_int v\<rparr>))
      else Inr (False, s))"

definition parseCiprxget2 :: "SimCommDevice \<Rightarrow> fault + bool \<times> SimCommDevice" where
  "parseCiprxget2 s =
     (if strncmp_eq (lineBuffer s) ''+CIPRXGET: 2,0,'' 15
      then (case sscanf_d (cstr (drop 15 (lineBuffer s))) of
              None \<Rightarrow> Inl UninitialisedRead
            | Some v \<Rightarrow>
                Inr (True, s\<lparr>bytesToReceive := bytesToReceive s - word_of_int v,
                             bytesToRead := bytesToRead s + word_of_int v,
                             stateBooleans := stateBooleans s AND NOT LINE_READ\<rparr>))
      else Inr (False, s))"

subsection \<open>The command emitters\<close>

text \<open>
  \<^verbatim>\<open>prepareSending()\<close>. The source writes the command and the length, two calls of
  \<^verbatim>\<open>_serial.write\<close>, and then sets \<^verbatim>\<open>_waitForReply\<close>.
\<close>

definition prepareSending :: "SimCommDevice \<Rightarrow> bool \<times> SimCommDevice" where
  "prepareSending s =
     (if serial_spaceAvailable (serial s) < MIN_SPACE_AVAILABLE
      then (False, s)
      else (let s1 = s\<lparr>bytesToWrite := availableData (writeBuffer s)\<rparr>;
                s2 = (if bytesToWrite s1 > serial_spaceAvailable (serial s1) - MIN_SPACE_AVAILABLE
                      then s1\<lparr>bytesToWrite :=
                                 serial_spaceAvailable (serial s1) - MIN_SPACE_AVAILABLE\<rparr>
                      else s1);
                s3 = s2\<lparr>serial := snd (serial_write ''AT+CIPSEND=0,'' (serial s2))\<rparr>;
                sizeStr = snprintf_u 6 (unat (bytesToWrite s3));
                s4 = s3\<lparr>serial := snd (serial_write sizeStr (serial s3))\<rparr>
            in (True, s4\<lparr>waitForReply := Some ''>''\<rparr>)))"

text \<open>
  \<^verbatim>\<open>sendData()\<close>: \<^verbatim>\<open>while (_bytesToWrite--) { _serial.write(_writeBuffer.pull()); }\<close>. The
  condition tests the old value and decrements in every case, also when the test fails.
\<close>

function sendData :: "SimCommDevice \<Rightarrow> SimCommDevice" where
  "sendData s =
     (let old = bytesToWrite s;
          s1 = s\<lparr>bytesToWrite := bytesToWrite s - 1\<rparr>
      in if old \<noteq> 0
         then (let (c, wb) = pull (writeBufferSize s1) (writeBuffer s1)
               in sendData (s1\<lparr>writeBuffer := wb, serial := serial_write_byte c (serial s1)\<rparr>))
         else s1)"
  by pat_completeness auto
termination
  by (relation "measure (\<lambda>s. unat (bytesToWrite s))")
    (auto simp: unat_minus_one word_greater_zero_iff unat_gt_0)

declare sendData.simps [simp del]

text \<open>
  \<^verbatim>\<open>receive()\<close>, whose loop counts \<^verbatim>\<open>_bytesToRead\<close> down with the decrement in the body:
  \<^verbatim>\<open>while (_bytesToRead) { _readBuffer.push(_serial.read()); _bytesToRead--; }\<close>
\<close>

function receive_loop :: "SimCommDevice \<Rightarrow> SimCommDevice" where
  "receive_loop s =
     (if bytesToRead s \<noteq> 0
      then (let (c, ser) = serial_read_byte (serial s)
            in receive_loop (s\<lparr>serial := ser,
                                readBuffer := push (readBufferSize s) c (readBuffer s),
                                bytesToRead := bytesToRead s - 1\<rparr>))
      else s)"
  by pat_completeness auto
termination
  by (relation "measure (\<lambda>s. unat (bytesToRead s))")
    (auto simp: unat_minus_one word_greater_zero_iff unat_gt_0 split: prod.splits)

declare receive_loop.simps [simp del]

definition receive :: "SimCommDevice \<Rightarrow> bool \<times> SimCommDevice" where
  "receive s =
     (if serial_bytesAvailable (serial s) \<ge> bytesToRead s
      then (let s1 = receive_loop s
            in (True, s1\<lparr>stateBooleans := stateBooleans s1 OR LINE_READ\<rparr>))
      else (False, s))"

text \<open>The two bytes that end a line: the line feed and the prompt \<^verbatim>\<open>>\<close>.\<close>

definition terminator :: "char \<Rightarrow> bool" where
  "terminator c = (c = LF \<or> c = CHR ''>'')"

subsection \<open>Example states\<close>

text \<open>
  Two rings reached from the constructor: a full ring of capacity 2, and a ring of capacity 4
  holding two elements after three pushes and a pull.
\<close>

definition ring_full2 :: "nat CircularBuffer" where
  "ring_full2 = push 2 20 (push 2 10 (CircularBuffer_new 2 0))"

definition ring_half4 :: "nat CircularBuffer" where
  "ring_half4 = snd (pull 4 (push 4 30 (push 4 20 (push 4 10 (CircularBuffer_new 4 0)))))"

text \<open>
  The ring of capacity 2 after the pushes of 10, 20 and 30 and one pull: the third push found
  the ring full.
\<close>

definition ring_apart2 :: "nat CircularBuffer" where
  "ring_apart2 = snd (pull 2 (push 2 30 ring_full2))"

text \<open>
  A device as \<^verbatim>\<open>resetStates()\<close> leaves it, with rings of capacity 4, a line buffer for
  \<^verbatim>\<open>LINE_MAX_LENGTH = 7\<close>, 64 free bytes in the transmit ring of the driver, and 16 chars
  for the IP address (a dotted IPv4 address and its NUL).
\<close>

definition device0 :: SimCommDevice where
  "device0 =
     \<lparr>serial = \<lparr>rxq = [], txq = [], txFree = 64\<rparr>,
      readBuffer = \<lparr>writeHead = 0, readHead = 0, availableData = 0,
                    buffer = [NUL, NUL, NUL, NUL]\<rparr>,
      readBufferSize = 4,
      writeBuffer = \<lparr>writeHead = 0, readHead = 0, availableData = 0,
                     buffer = [NUL, NUL, NUL, NUL]\<rparr>,
      writeBufferSize = 4,
      lineBuffer = [NUL, NUL, NUL, NUL, NUL, NUL, NUL, NUL],
      lbFill = 0, sendState = 0, replyState = 0, connectState = notConnected,
      bytesToWrite = 0, bytesToReceive = 0, bytesToRead = 0,
      waitForReply = None, stateBooleans = LINE_READ, rssi = 99,
      ip = [NUL, NUL, NUL, NUL, NUL, NUL, NUL, NUL, NUL, NUL, NUL, NUL, NUL, NUL, NUL, NUL],
      apn = None\<rparr>"



definition line_dns_failed :: string where
  "line_dns_failed = ''+CDNSGIP: 0,8'' @ [CR, LF, NUL]"

definition line_rx4 :: string where
  "line_rx4 = ''+CIPRXGET: 4,0,3'' @ [CR, LF, NUL]"

definition line_rx2 :: string where
  "line_rx2 = ''+CIPRXGET: 2,0,3'' @ [CR, LF, NUL]"

text \<open>The device with the five bytes \<^verbatim>\<open>hello\<close> in a write ring of capacity 8.\<close>

definition device_hello :: SimCommDevice where
  "device_hello =
     device0\<lparr>writeBuffer := \<lparr>writeHead = 5, readHead = 0, availableData = 5,
                               buffer = ''hello'' @ [NUL, NUL, NUL]\<rparr>,
             writeBufferSize := 8\<rparr>"

section \<open>Properties of the circular buffer\<close>

lemma unat_succ_lt: "(w :: 16 word) < v \<Longrightarrow> unat (w + 1) = Suc (unat w)"
proof -
  assume "w < v"
  then have "unat w < unat v" by (simp add: word_less_nat_alt)
  moreover have "unat v < 2 ^ 16" using unsigned_less [of v] by simp
  ultimately show ?thesis by (simp add: unat_word_ariths)
qed

lemma unat_incrementOrResetHead:
  assumes "h < N"
  shows "unat (incrementOrResetHead N h) = Suc (unat h) mod unat N"
proof -
  have s: "unat (h + 1) = Suc (unat h)" using assms by (rule unat_succ_lt)
  have l: "unat h < unat N" using assms by (simp add: word_less_nat_alt)
  show ?thesis
  proof (cases "h + 1 \<ge> N")
    case True
    then have "unat N \<le> Suc (unat h)" using s by (simp add: word_le_nat_alt)
    with l have "Suc (unat h) = unat N" by simp
    then show ?thesis using True by (simp add: incrementOrResetHead_def)
  next
    case False
    then have "Suc (unat h) < unat N" using s by (simp add: word_le_nat_alt)
    then show ?thesis using False s by (simp add: incrementOrResetHead_def Let_def)
  qed
qed

lemma incrementOrResetHead_less:
  assumes "0 < N"
  shows "incrementOrResetHead N h < N"
  using assms by (auto simp: incrementOrResetHead_def Let_def)

lemma mod_index_distinct:
  fixes r i k n :: nat
  assumes "i < k" "k < n"
  shows "(r + i) mod n \<noteq> (r + k) mod n"
proof
  assume "(r + i) mod n = (r + k) mod n"
  then have "n dvd (r + k) - (r + i)"
    using assms by (metis add_le_cancel_left less_imp_le_nat mod_eq_dvd_iff_nat)
  then have "n dvd k - i" by simp
  moreover have "0 < k - i" "k - i < n" using assms by auto
  ultimately show False by (meson dvd_imp_le not_less)
qed

lemma slots_Suc:
  "slots N rb (Suc k) = slots N rb k @ [buffer rb ! ((unat (readHead rb) + k) mod unat N)]"
  by (simp add: slots_def)

lemma slots_update_outside:
  assumes "k < unat N" "readHead rb' = readHead rb"
    and "buffer rb' = (buffer rb)[(unat (readHead rb) + k) mod unat N := x]"
  shows "slots N rb' k = slots N rb k"
proof -
  have "buffer rb' ! ((unat (readHead rb) + i) mod unat N)
        = buffer rb ! ((unat (readHead rb) + i) mod unat N)" if "i < k" for i
  proof -
    have "(unat (readHead rb) + k) mod unat N \<noteq> (unat (readHead rb) + i) mod unat N"
      using mod_index_distinct [OF that assms(1), of "unat (readHead rb)"] by simp
    then show ?thesis by (simp add: assms(3))
  qed
  then show ?thesis by (simp add: slots_def assms(2))
qed

text \<open>One step of the copy loop, seen through the slots after the read head.\<close>

lemma push_step_slots:
  assumes "length (buffer rb) = unat N" "k < unat N"
    and "unat (writeHead rb) = (unat (readHead rb) + k) mod unat N"
    and "readHead rb' = readHead rb"
    and "buffer rb' = (buffer rb)[unat (writeHead rb) := x]"
  shows "slots N rb' (Suc k) = slots N rb k @ [x]"
proof -
  have "slots N rb' k = slots N rb k"
    using assms by (intro slots_update_outside [where x = x]) simp_all
  moreover have "buffer rb' ! ((unat (readHead rb') + k) mod unat N) = x"
    using assms by simp
  ultimately show ?thesis by (simp add: slots_Suc)
qed

lemma push_loop_spec:
  assumes "0 < N" "length (buffer rb) = unat N" "writeHead rb < N"
    and "unat (writeHead rb) = (unat (readHead rb) + k) mod unat N"
    and "wc \<le> sz" "k + (unat sz - unat wc) \<le> unat N" "unat sz \<le> length data"
  shows "\<exists>rb'. push_loop N data sz wc rb = (sz, rb')
           \<and> readHead rb' = readHead rb \<and> availableData rb' = availableData rb
           \<and> length (buffer rb') = unat N \<and> writeHead rb' < N
           \<and> unat (writeHead rb') = (unat (readHead rb) + k + (unat sz - unat wc)) mod unat N
           \<and> slots N rb' (k + (unat sz - unat wc))
               = slots N rb k @ take (unat sz - unat wc) (drop (unat wc) data)"
  using assms
proof (induction N data sz wc rb arbitrary: k rule: push_loop.induct)
  case (1 N data sz wc rb)
  show ?case
  proof (cases "wc < sz")
    case False
    with "1.prems"(5) have "wc = sz" by simp
    then show ?thesis using "1.prems" by (subst push_loop.simps) simp
  next
    case True
    let ?rb1 = "rb\<lparr>buffer := (buffer rb)[unat (writeHead rb) := data ! unat wc],
                    writeHead := incrementOrResetHead N (writeHead rb)\<rparr>"
    have s: "unat (wc + 1) = Suc (unat wc)" using True by (rule unat_succ_lt)
    have lt: "unat wc < unat sz" using True by (simp add: word_less_nat_alt)
    have kn: "k < unat N" using "1.prems"(6) lt by simp
    have le1: "wc + 1 \<le> sz" using s lt by (simp add: word_le_nat_alt)
    have w1: "unat (writeHead ?rb1) = (unat (readHead ?rb1) + Suc k) mod unat N"
      using "1.prems"(3,4) by (simp add: unat_incrementOrResetHead mod_Suc_eq)
    have "\<exists>rb'. push_loop N data sz (wc + 1) ?rb1 = (sz, rb')
           \<and> readHead rb' = readHead ?rb1 \<and> availableData rb' = availableData ?rb1
           \<and> length (buffer rb') = unat N \<and> writeHead rb' < N
           \<and> unat (writeHead rb') = (unat (readHead ?rb1) + Suc k + (unat sz - unat (wc + 1))) mod unat N
           \<and> slots N rb' (Suc k + (unat sz - unat (wc + 1)))
               = slots N ?rb1 (Suc k) @ take (unat sz - unat (wc + 1)) (drop (unat (wc + 1)) data)"
      using "1.prems" True s lt le1 w1
      by (intro "1.IH") (simp_all add: incrementOrResetHead_less)
    then obtain rb' where r: "push_loop N data sz (wc + 1) ?rb1 = (sz, rb')"
      "readHead rb' = readHead rb" "availableData rb' = availableData rb"
      "length (buffer rb') = unat N" "writeHead rb' < N"
      "unat (writeHead rb') = (unat (readHead rb) + Suc k + (unat sz - unat (wc + 1))) mod unat N"
      "slots N rb' (Suc k + (unat sz - unat (wc + 1)))
               = slots N ?rb1 (Suc k) @ take (unat sz - unat (wc + 1)) (drop (unat (wc + 1)) data)"
      by auto
    have sl: "slots N ?rb1 (Suc k) = slots N rb k @ [data ! unat wc]"
      using "1.prems" kn by (intro push_step_slots) simp_all
    have e: "unat sz - unat wc = Suc (unat sz - unat (wc + 1))"
      using s lt by simp
    have tk: "take (Suc (unat sz - unat (wc + 1))) (drop (unat wc) data)
              = data ! unat wc # take (unat sz - unat (wc + 1)) (drop (unat (wc + 1)) data)"
    proof -
      have "unat wc < length data" using lt "1.prems"(7) by simp
      then have "drop (unat wc) data = data ! unat wc # drop (Suc (unat wc)) data"
        by (simp add: Cons_nth_drop_Suc)
      then show ?thesis using s by simp
    qed
    have p: "push_loop N data sz wc rb = (sz, rb')"
      using True r(1) by (subst push_loop.simps) simp
    show ?thesis
      unfolding e
      using p r(2-7) sl tk by (intro exI [of _ rb']) simp
  qed
qed


lemma push_loop_count:
  "wc \<le> sz \<Longrightarrow> fst (push_loop N data sz wc rb) = sz"
proof (induction N data sz wc rb rule: push_loop.induct)
  case (1 N data sz wc rb)
  show ?case
  proof (cases "wc < sz")
    case True
    then have "unat (wc + 1) = Suc (unat wc)" by (rule unat_succ_lt)
    moreover have "unat wc < unat sz" using True by (simp add: word_less_nat_alt)
    ultimately have "wc + 1 \<le> sz" by (simp add: word_le_nat_alt)
    then show ?thesis using True "1.IH" by (subst push_loop.simps) simp
  next
    case False
    with "1.prems" have "wc = sz" by simp
    then show ?thesis by (subst push_loop.simps) simp
  qed
qed

lemma push_loop_availableData:
  "availableData (snd (push_loop N data sz wc rb)) = availableData rb"
proof (induction N data sz wc rb rule: push_loop.induct)
  case (1 N data sz wc rb)
  then show ?case by (subst push_loop.simps) simp
qed

lemma pull_loop_count:
  "rc \<le> sz \<Longrightarrow> fst (pull_loop N sz rc out rb) = sz"
proof (induction N sz rc out rb rule: pull_loop.induct)
  case (1 N sz rc out rb)
  show ?case
  proof (cases "rc < sz")
    case True
    then have "unat (rc + 1) = Suc (unat rc)" by (rule unat_succ_lt)
    moreover have "unat rc < unat sz" using True by (simp add: word_less_nat_alt)
    ultimately have "rc + 1 \<le> sz" by (simp add: word_le_nat_alt)
    then show ?thesis using True "1.IH" by (subst pull_loop.simps) simp
  next
    case False
    with "1.prems" have "rc = sz" by simp
    then show ?thesis by (subst pull_loop.simps) simp
  qed
qed

lemma pull_loop_availableData:
  "availableData (snd (snd (pull_loop N sz rc out rb))) = availableData rb"
proof (induction N sz rc out rb rule: pull_loop.induct)
  case (1 N sz rc out rb)
  then show ?case by (subst pull_loop.simps) simp
qed

lemma push_data_count: "fst (push_data N data sz rb) = min sz (availableSpace N rb)"
proof -
  have "fst (push_loop N data (min sz (availableSpace N rb)) 0 rb) = min sz (availableSpace N rb)"
    by (rule push_loop_count) simp
  moreover have "(if sz > availableSpace N rb then availableSpace N rb else sz)
                   = min sz (availableSpace N rb)"
    by (auto simp: min_def)
  ultimately show ?thesis
    by (simp add: push_data_def Let_def split_beta)
qed

lemma push_data_availableData:
  "availableData (snd (push_data N data sz rb)) = availableData rb + min sz (availableSpace N rb)"
proof -
  have "(if sz > availableSpace N rb then availableSpace N rb else sz)
                   = min sz (availableSpace N rb)"
    by (auto simp: min_def)
  then show ?thesis
    using push_loop_count [of 0 "min sz (availableSpace N rb)" N data rb]
    by (simp add: push_data_def Let_def split_beta push_loop_availableData)
qed

lemma unat_clamped_sum:
  assumes "a \<le> (N :: 16 word)"
  shows "unat (a + min sz (N - a)) = unat a + min (unat sz) (unat N - unat a)"
proof -
  have "unat (N - a) = unat N - unat a" using assms by (rule unat_sub)
  moreover have "unat a \<le> unat N" using assms by (simp add: word_le_nat_alt)
  moreover have "unat N < 2 ^ 16" using unsigned_less [of N] by simp
  moreover have "unat (min sz (N - a)) = min (unat sz) (unat (N - a))"
    by (simp add: min_def word_le_nat_alt)
  ultimately show ?thesis by (simp add: unat_word_ariths)
qed

lemma push_data_bounded:
  assumes "availableData rb \<le> N"
  shows "availableData (snd (push_data N data sz rb)) \<le> N"
  using assms unat_clamped_sum [OF assms, of sz]
  by (simp add: push_data_availableData availableSpace_def word_le_nat_alt)

lemma pull_data_availableData:
  "availableData (snd (snd (pull_data N sz rb))) = availableData rb - min sz (availableData rb)"
proof -
  have "(if sz > availableData rb then availableData rb else sz) = min sz (availableData rb)"
    by (auto simp: min_def)
  then show ?thesis
    using pull_loop_count [of 0 "min sz (availableData rb)" N "[]" rb]
    by (simp add: pull_data_def Let_def split_beta pull_loop_availableData)
qed

lemma pull_data_bounded:
  assumes "availableData rb \<le> N"
  shows "availableData (snd (snd (pull_data N sz rb))) \<le> N"
proof -
  have "min sz (availableData rb) \<le> availableData rb" by simp
  then have "unat (availableData rb - min sz (availableData rb))
             = unat (availableData rb) - unat (min sz (availableData rb))"
    by (rule unat_sub)
  then show ?thesis using assms
    by (simp add: pull_data_availableData word_le_nat_alt)
qed

lemma push_bounded:
  assumes "availableData rb \<le> N"
  shows "availableData (push N x rb) \<le> N"
proof (cases "availableData rb < N")
  case True
  then have "unat (availableData rb + 1) = Suc (unat (availableData rb))" by (rule unat_succ_lt)
  then show ?thesis using True by (simp add: push_def Let_def word_le_nat_alt word_less_nat_alt)
next
  case False
  then show ?thesis using assms by (simp add: push_def Let_def)
qed

lemma pull_bounded:
  assumes "availableData rb \<le> N"
  shows "availableData (snd (pull N rb)) \<le> N"
proof (cases "availableData rb > 0")
  case True
  then have "availableData rb \<noteq> 0" by auto
  then have "unat (availableData rb - 1) = unat (availableData rb) - 1" by (rule unat_minus_one)
  then show ?thesis using True assms by (simp add: pull_def Let_def word_le_nat_alt)
next
  case False
  then show ?thesis using assms by (simp add: pull_def Let_def)
qed

lemma push_data_queued:
  assumes ok: "0 < N" "length (buffer rb) = unat N" "writeHead rb < N" "availableData rb \<le> N"
    and hc: "heads_consistent N rb"
    and len: "unat sz \<le> length data"
  shows "queued N (snd (push_data N data sz rb))
           = queued N rb @ take (unat (min sz (availableSpace N rb))) data"
proof -
  let ?c = "min sz (availableSpace N rb)"
  have c: "(if sz > availableSpace N rb then availableSpace N rb else sz) = ?c"
    by (auto simp: min_def)
  have sum: "unat (availableData rb + ?c)
             = unat (availableData rb) + min (unat sz) (unat N - unat (availableData rb))"
    using unat_clamped_sum [OF ok(4), of sz] by (simp add: availableSpace_def)
  have uc: "unat ?c = min (unat sz) (unat N - unat (availableData rb))"
    using unat_sub [OF ok(4)] by (simp add: min_def word_le_nat_alt availableSpace_def)
  have "\<exists>rb'. push_loop N data ?c 0 rb = (?c, rb')
           \<and> readHead rb' = readHead rb \<and> availableData rb' = availableData rb
           \<and> length (buffer rb') = unat N \<and> writeHead rb' < N
           \<and> unat (writeHead rb')
               = (unat (readHead rb) + unat (availableData rb) + (unat ?c - unat (0::16 word))) mod unat N
           \<and> slots N rb' (unat (availableData rb) + (unat ?c - unat (0::16 word)))
               = slots N rb (unat (availableData rb)) @ take (unat ?c - unat (0::16 word)) (drop (unat (0::16 word)) data)"
    using ok hc len uc
    by (intro push_loop_spec) (simp_all add: heads_consistent_def word_le_nat_alt)
  then obtain rb' where r: "push_loop N data ?c 0 rb = (?c, rb')"
      "readHead rb' = readHead rb" "availableData rb' = availableData rb"
      "slots N rb' (unat (availableData rb) + unat ?c)
               = slots N rb (unat (availableData rb)) @ take (unat ?c) data"
    by auto
  have "slots N (rb'\<lparr>availableData := availableData rb' + ?c\<rparr>) k = slots N rb' k" for k
    by (simp add: slots_def)
  then show ?thesis
    using r sum uc by (simp add: push_data_def Let_def c queued_def)
qed


lemma replicate_2: "replicate 2 x = [x, x]"
  by (simp add: numeral_eq_Suc)

lemma replicate_4: "replicate 4 x = [x, x, x, x]"
  by (simp add: numeral_eq_Suc)

lemma ring_full2_eq:
  "ring_full2 = \<lparr>writeHead = 0, readHead = 0, availableData = 2, buffer = [10, 20]\<rparr>"
  by (simp add: ring_full2_def push_def CircularBuffer_new_def incrementOrResetHead_def Let_def
      word_le_nat_alt word_less_nat_alt replicate_2)

lemma ring_half4_eq:
  "ring_half4 = \<lparr>writeHead = 3, readHead = 1, availableData = 2, buffer = [10, 20, 30, 0]\<rparr>"
  by (simp add: ring_half4_def push_def pull_def CircularBuffer_new_def
      incrementOrResetHead_def Let_def word_le_nat_alt word_less_nat_alt
      replicate_4)

lemma push_full_queued:
  assumes "0 < N" "length (buffer rb) = unat N" "readHead rb < N"
    and "writeHead rb = readHead rb" "availableData rb = N"
  shows "queued N (push N x rb) = (queued N rb)[0 := x]"
proof (rule nth_equalityI)
  show "length (queued N (push N x rb)) = length ((queued N rb)[0 := x])"
    using assms by (simp add: queued_def slots_def push_def Let_def)
next
  fix i assume "i < length (queued N (push N x rb))"
  then have i: "i < unat N"
    using assms by (simp add: queued_def slots_def push_def Let_def)
  have r: "unat (readHead rb) < unat N" using assms(3) by (simp add: word_less_nat_alt)
  show "queued N (push N x rb) ! i = (queued N rb)[0 := x] ! i"
  proof (cases i)
    case 0
    then show ?thesis using assms i r
      by (simp add: queued_def slots_def push_def Let_def)
  next
    case (Suc j)
    have "(unat (readHead rb) + 0) mod unat N \<noteq> (unat (readHead rb) + i) mod unat N"
      using Suc i by (intro mod_index_distinct) simp_all
    then have "unat (readHead rb) \<noteq> (unat (readHead rb) + i) mod unat N"
      using r by simp
    then show ?thesis using assms i Suc
      by (simp add: queued_def slots_def push_def Let_def)
  qed
qed

lemma full_heads_meet:
  assumes "ring_ok N rb" "heads_consistent N rb" "availableData rb = N"
  shows "writeHead rb = readHead rb"
proof -
  have "unat (readHead rb) < unat N"
    using assms(1) by (simp add: ring_ok_def word_less_nat_alt)
  then have "unat (writeHead rb) = unat (readHead rb)"
    using assms(2,3) by (simp add: heads_consistent_def)
  then show ?thesis by (simp add: word_unat_eq_iff)
qed

lemma push_nonfull_queued:
  assumes "ring_ok N rb" "heads_consistent N rb" "availableData rb \<noteq> N"
  shows "queued N (push N x rb) = queued N rb @ [x]"
    and "unat (availableData (push N x rb)) = Suc (unat (availableData rb))"
    and "heads_consistent N (push N x rb)"
proof -
  have lt: "availableData rb < N" using assms(1,3) by (simp add: ring_ok_def less_le)
  have s: "unat (availableData rb + 1) = Suc (unat (availableData rb))"
    using lt by (rule unat_succ_lt)
  have k: "unat (availableData rb) < unat N" using lt by (simp add: word_less_nat_alt)
  let ?rb1 = "rb\<lparr>buffer := (buffer rb)[unat (writeHead rb) := x]\<rparr>"
  have "slots N ?rb1 (Suc (unat (availableData rb))) = slots N rb (unat (availableData rb)) @ [x]"
    using assms(1,2) k
    by (intro push_step_slots) (simp_all add: ring_ok_def heads_consistent_def)
  moreover have "slots N (push N x rb) j = slots N ?rb1 j" for j
    by (simp add: slots_def push_def Let_def)
  ultimately show "queued N (push N x rb) = queued N rb @ [x]"
    using lt s by (simp add: queued_def push_def Let_def)
  show "unat (availableData (push N x rb)) = Suc (unat (availableData rb))"
    using lt s by (simp add: push_def Let_def)
  have "writeHead rb < N" using assms(1) by (simp add: ring_ok_def)
  then show "heads_consistent N (push N x rb)"
    using assms(2) lt s
    by (simp add: heads_consistent_def push_def Let_def unat_incrementOrResetHead mod_Suc_eq)
qed

text \<open>
  Claim C1, as amended. The single-element push stores the element in the slot at the write
  head, advances the write head by one (wrapping at \<open>N\<close>) and never moves the read head. On
  a full ring whose heads are consistent that slot is the one of the oldest element, which the
  new element replaces at the front of the queue, and \<open>availableData\<close> stays \<open>N\<close>; on a
  ring that is not full the element is appended to the queue and \<open>availableData\<close> grows by
  one.
\<close>

theorem push_single_element:
  assumes "ring_ok N rb" and "heads_consistent N rb"
  shows "buffer (push N x rb) = (buffer rb)[unat (writeHead rb) := x]
       \<and> writeHead (push N x rb) = incrementOrResetHead N (writeHead rb)
       \<and> readHead (push N x rb) = readHead rb
       \<and> (availableData rb = N \<longrightarrow>
            writeHead rb = readHead rb
            \<and> queued N (push N x rb) = (queued N rb)[0 := x]
            \<and> availableData (push N x rb) = N)
       \<and> (availableData rb \<noteq> N \<longrightarrow>
            queued N (push N x rb) = queued N rb @ [x]
            \<and> unat (availableData (push N x rb)) = unat (availableData rb) + 1)"
proof -
  have "buffer (push N x rb) = (buffer rb)[unat (writeHead rb) := x]"
    "writeHead (push N x rb) = incrementOrResetHead N (writeHead rb)"
    "readHead (push N x rb) = readHead rb"
    by (simp_all add: push_def Let_def)
  moreover have "writeHead rb = readHead rb \<and> queued N (push N x rb) = (queued N rb)[0 := x]
       \<and> availableData (push N x rb) = N" if full: "availableData rb = N"
  proof -
    have m: "writeHead rb = readHead rb" using assms full by (rule full_heads_meet)
    moreover have "queued N (push N x rb) = (queued N rb)[0 := x]"
      using assms(1) m full by (intro push_full_queued) (simp_all add: ring_ok_def)
    moreover have "availableData (push N x rb) = N"
      using full by (simp add: push_def Let_def)
    ultimately show ?thesis by simp
  qed
  moreover have "queued N (push N x rb) = queued N rb @ [x]
            \<and> unat (availableData (push N x rb)) = unat (availableData rb) + 1"
    if "availableData rb \<noteq> N"
    using push_nonfull_queued(1,2) [OF assms that] by simp
  ultimately show ?thesis by blast
qed

lemma ring_full2_ok: "ring_ok 2 ring_full2 \<and> heads_consistent 2 ring_full2"
  by (simp add: ring_full2_eq ring_ok_def heads_consistent_def)

lemma ring_half4_ok: "ring_ok 4 ring_half4 \<and> heads_consistent 4 ring_half4"
  by (simp add: ring_half4_eq ring_ok_def heads_consistent_def)

lemma queued_full2: "queued 2 ring_full2 = [10, 20]"
  by (simp add: ring_full2_eq queued_def slots_def upt_rec)

lemma queued_half4: "queued 4 ring_half4 = [20, 30]"
  by (simp add: ring_half4_eq queued_def slots_def upt_rec)

theorem push_single_element_witness:
  "ring_ok 2 ring_full2 \<and> heads_consistent 2 ring_full2 \<and> availableData ring_full2 = 2
   \<and> readHead (push 2 30 ring_full2) = 0
   \<and> writeHead (push 2 30 ring_full2) = 1
   \<and> queued 2 (push 2 30 ring_full2) = [30, 20]
   \<and> availableData (push 2 30 ring_full2) = 2
   \<and> ring_ok 4 ring_half4 \<and> heads_consistent 4 ring_half4 \<and> availableData ring_half4 \<noteq> 4
   \<and> queued 4 (push 4 40 ring_half4) = [20, 30, 40]
   \<and> unat (availableData (push 4 40 ring_half4)) = 3"
  using push_single_element [of 2 ring_full2 30] push_single_element [of 4 ring_half4 40]
    ring_full2_ok ring_half4_ok
  by (simp add: queued_full2 queued_half4)
    (simp add: ring_full2_eq ring_half4_eq incrementOrResetHead_def word_le_nat_alt)

text \<open>
  Claim C1 as stated fails: on the full ring of capacity 2 the push leaves the read head where
  it was, and the next pull returns the element just pushed.
\<close>

theorem push_full_read_head_counterexample:
  "isFull 2 ring_full2
   \<and> readHead (push 2 30 ring_full2) = readHead ring_full2
   \<and> readHead (push 2 30 ring_full2) \<noteq> incrementOrResetHead 2 (readHead ring_full2)
   \<and> fst (pull 2 (push 2 30 ring_full2)) = 30"
  by (simp add: ring_full2_eq isFull_def push_def pull_def incrementOrResetHead_def Let_def
      word_le_nat_alt word_less_nat_alt)


lemma ring_ok_new: "0 < N \<Longrightarrow> ring_ok N (CircularBuffer_new N z)"
  by (simp add: ring_ok_def CircularBuffer_new_def)

lemma ring_ok_push: "ring_ok N rb \<Longrightarrow> ring_ok N (push N x rb)"
  using push_bounded [of rb N x] incrementOrResetHead_less [of N "writeHead rb"]
  by (simp add: ring_ok_def) (simp add: push_def Let_def)

lemma ring_ok_pull: "ring_ok N rb \<Longrightarrow> ring_ok N (snd (pull N rb))"
  using pull_bounded [of rb N] incrementOrResetHead_less [of N "readHead rb"]
  by (simp add: ring_ok_def) (simp add: pull_def Let_def)

lemma ring_ok_flush: "ring_ok N rb \<Longrightarrow> ring_ok N (flush rb)"
  by (simp add: ring_ok_def flush_def)

text \<open>
  Claim C9, as amended. Every operation keeps \<open>availableData\<close> at most \<open>N\<close> (it is unsigned,
  so never below zero): the bulk push copies \<open>min size availableSpace\<close> elements and adds that
  count; the single push leaves a full ring at \<open>N\<close>; the single pull leaves an empty ring at
  zero. On a ring with consistent heads the bulk push leaves the queued elements in place and
  appends the copied ones.
\<close>

theorem availableData_bounded:
  assumes "availableData rb \<le> N"
  shows "availableData (snd (push_data N data sz rb)) \<le> N
       \<and> fst (push_data N data sz rb) = min sz (availableSpace N rb)
       \<and> unat (availableData (snd (push_data N data sz rb)))
           = unat (availableData rb) + unat (fst (push_data N data sz rb))
       \<and> (ring_ok N rb \<and> heads_consistent N rb \<and> unat sz \<le> length data \<longrightarrow>
            queued N (snd (push_data N data sz rb))
              = queued N rb @ take (unat (fst (push_data N data sz rb))) data)
       \<and> availableData (push N x rb) \<le> N
       \<and> (availableData rb = N \<longrightarrow> availableData (push N x rb) = N)
       \<and> availableData (snd (pull N rb)) \<le> N
       \<and> (availableData rb = 0 \<longrightarrow> availableData (snd (pull N rb)) = 0)
       \<and> availableData (snd (snd (pull_data N sz rb))) \<le> N
       \<and> availableData (flush rb) \<le> N"
proof -
  have c: "fst (push_data N data sz rb) = min sz (availableSpace N rb)"
    by (rule push_data_count)
  have "unat (min sz (N - availableData rb)) = min (unat sz) (unat N - unat (availableData rb))"
    using unat_sub [OF assms] by (simp add: min_def word_le_nat_alt)
  then have u: "unat (availableData (snd (push_data N data sz rb)))
           = unat (availableData rb) + unat (fst (push_data N data sz rb))"
    using unat_clamped_sum [OF assms, of sz]
    by (simp add: c push_data_availableData availableSpace_def)
  have q: "queued N (snd (push_data N data sz rb))
              = queued N rb @ take (unat (fst (push_data N data sz rb))) data"
    if "ring_ok N rb \<and> heads_consistent N rb \<and> unat sz \<le> length data"
    using that unfolding c by (intro push_data_queued) (simp_all add: ring_ok_def)
  have "availableData rb = N \<longrightarrow> availableData (push N x rb) = N"
    by (simp add: push_def Let_def)
  moreover have "availableData rb = 0 \<longrightarrow> availableData (snd (pull N rb)) = 0"
    by (simp add: pull_def Let_def)
  moreover have "availableData (flush rb) \<le> N"
    by (simp add: flush_def)
  ultimately show ?thesis
    using c u q push_data_bounded [OF assms] push_bounded [OF assms] pull_bounded [OF assms]
      pull_data_bounded [OF assms]
    by blast
qed

lemma push_data_half4:
  "push_data 4 [40, 50, 60] 3 ring_half4
     = (2, \<lparr>writeHead = 1, readHead = 1, availableData = 4, buffer = [50, 20, 30, 40]\<rparr>)"
  by (simp add: push_data_def push_loop.simps ring_half4_eq availableSpace_def Let_def
      incrementOrResetHead_def word_le_nat_alt word_less_nat_alt)

theorem availableData_bounded_witness:
  "availableData ring_half4 \<le> 4
   \<and> ring_ok 4 ring_half4 \<and> heads_consistent 4 ring_half4 \<and> unat (3 :: 16 word) \<le> length [40, 50, 60 :: nat]
   \<and> fst (push_data 4 [40, 50, 60] 3 ring_half4) = 2
   \<and> availableData (snd (push_data 4 [40, 50, 60] 3 ring_half4)) = 4
   \<and> queued 4 (snd (push_data 4 [40, 50, 60] 3 ring_half4)) = [20, 30, 40, 50]
   \<and> availableData ring_full2 \<le> 2 \<and> availableData ring_full2 = 2
   \<and> availableData (push 2 30 ring_full2) = 2
   \<and> availableData (flush ring_full2) = 0 \<and> availableData (snd (pull 2 (flush ring_full2))) = 0"
  using availableData_bounded [of ring_half4 4 "[40, 50, 60]" 3 0]
    availableData_bounded [of ring_full2 2 "[]" 0 30]
    availableData_bounded [of "flush ring_full2" 2 "[]" 0 30]
    ring_half4_ok ring_full2_ok
  by (simp add: push_data_half4 queued_half4)
    (simp add: ring_half4_eq ring_full2_eq flush_def)


lemma ring_apart2_eq:
  "ring_apart2 = \<lparr>writeHead = 1, readHead = 1, availableData = 1, buffer = [30, 20]\<rparr>"
  by (simp add: ring_apart2_def ring_full2_eq push_def pull_def incrementOrResetHead_def Let_def
      word_le_nat_alt word_less_nat_alt)

text \<open>
  Claim C9 as stated fails in its part on the bulk push: on the ring of capacity 2 after the
  pushes of 10, 20 and 30 and one pull, which holds the 20 and has one free slot, the bulk push
  of the single element 40 stays within the free space and still overwrites the queued 20.
\<close>

theorem push_data_overwrites_counterexample:
  "ring_ok 2 ring_apart2
   \<and> queued 2 ring_apart2 = [20]
   \<and> availableSpace 2 ring_apart2 = 1
   \<and> push_data 2 [40] 1 ring_apart2
       = (1, \<lparr>writeHead = 0, readHead = 1, availableData = 2, buffer = [30, 40]\<rparr>)
   \<and> queued 2 (snd (push_data 2 [40] 1 ring_apart2)) = [40, 30]
   \<and> queued 2 (snd (push_data 2 [40] 1 ring_apart2)) \<noteq> queued 2 ring_apart2 @ [40]"
  by (simp add: ring_apart2_eq ring_ok_def queued_def slots_def upt_rec availableSpace_def
      push_data_def push_loop.simps incrementOrResetHead_def Let_def
      word_le_nat_alt word_less_nat_alt)

subsection \<open>Pulling\<close>

lemma pull_queued:
  assumes "ring_ok N rb" "availableData rb \<noteq> 0"
  shows "fst (pull N rb) = hd (queued N rb)"
    and "queued N (snd (pull N rb)) = tl (queued N rb)"
    and "unat (availableData (snd (pull N rb))) = unat (availableData rb) - 1"
proof -
  let ?n = "unat N" and ?r = "unat (readHead rb)" and ?a = "unat (availableData rb)"
  have pos: "0 < availableData rb" using assms(2) by (simp add: word_greater_zero_iff)
  have a: "0 < ?a" using assms(2) by (simp add: unat_gt_0)
  have r: "?r < ?n" using assms(1) by (simp add: ring_ok_def word_less_nat_alt)
  have r': "unat (incrementOrResetHead N (readHead rb)) = Suc ?r mod ?n"
    using assms(1) by (simp add: ring_ok_def unat_incrementOrResetHead)
  have am: "unat (availableData rb - 1) = ?a - 1"
    using assms(2) by (rule unat_minus_one)
  have up: "[0..<?a] = 0 # map Suc [0..<?a - 1]"
    using a by (metis Suc_pred' map_Suc_upt upt_conv_Cons)
  show "fst (pull N rb) = hd (queued N rb)"
    using a r by (simp add: pull_def Let_def queued_def slots_def up)
  show "unat (availableData (snd (pull N rb))) = unat (availableData rb) - 1"
    using pos am by (simp add: pull_def Let_def)
  have "queued N (snd (pull N rb))
          = map (\<lambda>i. buffer rb ! ((Suc ?r mod ?n + i) mod ?n)) [0..<?a - 1]"
    using pos am r' by (simp add: pull_def Let_def queued_def slots_def)
  also have "\<dots> = map (\<lambda>i. buffer rb ! ((?r + Suc i) mod ?n)) [0..<?a - 1]"
    by (simp add: mod_add_left_eq mod_Suc_eq)
  also have "\<dots> = tl (map (\<lambda>i. buffer rb ! ((?r + i) mod ?n)) (0 # map Suc [0..<?a - 1]))"
    by (simp add: comp_def)
  also have "\<dots> = tl (queued N rb)"
    unfolding queued_def slots_def by (subst up) (rule refl)
  finally show "queued N (snd (pull N rb)) = tl (queued N rb)" .
qed

lemma pull_many_length: "length (fst (pull_many N k rb)) = k"
  by (induction k arbitrary: rb) (simp_all add: split_beta Let_def)

lemma pull_many_queued:
  assumes "ring_ok N rb" "k \<le> unat (availableData rb)"
  shows "fst (pull_many N k rb) = take k (queued N rb)"
  using assms
proof (induction k arbitrary: rb)
  case 0
  then show ?case by simp
next
  case (Suc k)
  have nz: "availableData rb \<noteq> 0" using Suc.prems(2) by (auto simp: unat_gt_0 [symmetric])
  have q: "queued N rb \<noteq> []"
    using Suc.prems(2) by (auto simp: queued_def slots_def)
  have "fst (pull_many N k (snd (pull N rb))) = take k (queued N (snd (pull N rb)))"
    using Suc.prems pull_queued(3) [OF Suc.prems(1) nz]
    by (intro Suc.IH ring_ok_pull) simp_all
  then show ?case
    using pull_queued(1,2) [OF Suc.prems(1) nz] q
    by (cases "queued N rb") (simp_all add: split_beta Let_def)
qed

text \<open>
  Why the heads must be consistent: a push on a full ring leaves them apart, and from then on
  a push on the ring, no longer full, lands on a queued element instead of behind the queue.
\<close>

lemma push_after_overflow:
  "\<not> heads_consistent 2 (push 2 30 ring_full2)
   \<and> queued 2 (snd (pull 2 (push 2 30 ring_full2))) = [20]
   \<and> availableData (snd (pull 2 (push 2 30 ring_full2))) = 1
   \<and> queued 2 (push 2 40 (snd (pull 2 (push 2 30 ring_full2)))) = [40, 30]"
  by (simp add: ring_full2_eq push_def pull_def incrementOrResetHead_def Let_def
      heads_consistent_def queued_def slots_def upt_rec word_le_nat_alt word_less_nat_alt)

section \<open>Properties of the session engine\<close>

subsection \<open>C strings\<close>

lemma cstr_Nil: "cstr [] = []"
  by (simp add: cstr_def)

lemma cstr_Cons: "cstr (c # cs) = (if c = NUL then [] else c # cstr cs)"
  by (simp add: cstr_def)

lemma cstr_append: "NUL \<notin> set xs \<Longrightarrow> cstr (xs @ ys) = xs @ cstr ys"
  by (induction xs) (auto simp: cstr_def)


lemma cstr_no_NUL: "NUL \<notin> set xs \<Longrightarrow> cstr xs = xs"
  using cstr_append [of xs "[]"] by (simp add: cstr_Nil)

lemma NUL_notin_cstr: "NUL \<notin> set (cstr xs)"
  by (auto simp: cstr_def dest: set_takeWhileD)

lemma cstr_prefix_split:
  assumes "cstr lb = p @ r"
  shows "\<exists>t. lb = p @ r @ t \<and> (t = [] \<or> hd t = NUL)"
proof -
  have "lb = cstr lb @ dropWhile (\<lambda>c. c \<noteq> NUL) lb"
    by (simp add: cstr_def)
  moreover have "dropWhile (\<lambda>c. c \<noteq> NUL) lb = [] \<or> hd (dropWhile (\<lambda>c. c \<noteq> NUL) lb) = NUL"
    using hd_dropWhile [of "\<lambda>c. c \<noteq> NUL" lb] by auto
  ultimately show ?thesis using assms by (metis append.assoc)
qed

lemma cstr_drop:
  assumes "cstr lb = p @ r" and "k = length p"
  shows "cstr (drop k lb) = r"
proof -
  obtain t where t: "lb = p @ r @ t" "t = [] \<or> hd t = NUL"
    using cstr_prefix_split [OF assms(1)] by blast
  have "NUL \<notin> set r" using NUL_notin_cstr [of lb] assms(1) by simp
  moreover have "cstr t = []" using t(2) by (cases t) (auto simp: cstr_Nil cstr_Cons)
  ultimately have "cstr (r @ t) = r"
    by (simp add: cstr_append)
  then show ?thesis using t(1) assms(2) by simp
qed

lemma strncmp_eq_prefix:
  assumes "cstr lb = p @ r" "NUL \<notin> set lit"
  shows "strncmp_eq lb lit (length p) = (p = take (length p) lit)"
proof -
  have "cstr lit = lit" using assms(2) by (rule cstr_no_NUL)
  then show ?thesis using assms(1) by (simp add: strncmp_eq_def) 
qed

subsection \<open>serialLock, serialWrite, serialRead\<close>

text \<open>
  Claim C8. \<open>serialLock\<close> returns false and changes nothing when a reply is awaited or the
  reply state is not zero; in every other state it sets \<open>SERIAL_LOCKED\<close> and returns true.
\<close>

theorem serialLock_grants:
  "(waitForReply s \<noteq> None \<or> replyState s \<noteq> 0 \<longrightarrow> serialLock s = (False, s))
   \<and> (waitForReply s = None \<and> replyState s = 0 \<longrightarrow>
        serialLock s = (True, s\<lparr>stateBooleans := stateBooleans s OR SERIAL_LOCKED\<rparr>)
        \<and> stateBooleans (snd (serialLock s)) AND SERIAL_LOCKED = SERIAL_LOCKED)"
  by (simp add: serialLock_def)

theorem serialLock_grants_witness:
  "waitForReply (device0\<lparr>waitForReply := Some ''OK''\<rparr>) \<noteq> None
   \<and> serialLock (device0\<lparr>waitForReply := Some ''OK''\<rparr>)
       = (False, device0\<lparr>waitForReply := Some ''OK''\<rparr>)
   \<and> replyState (device0\<lparr>replyState := 1\<rparr>) \<noteq> 0
   \<and> serialLock (device0\<lparr>replyState := 1\<rparr>) = (False, device0\<lparr>replyState := 1\<rparr>)
   \<and> waitForReply device0 = None \<and> replyState device0 = 0
   \<and> serialLock device0 = (True, device0\<lparr>stateBooleans := 0x41\<rparr>)"
  using serialLock_grants [of "device0\<lparr>waitForReply := Some ''OK''\<rparr>"]
    serialLock_grants [of "device0\<lparr>replyState := 1\<rparr>"] serialLock_grants [of device0]
  by (simp add: device0_def LINE_READ_def SERIAL_LOCKED_def)

text \<open>
  Claim C10. While \<open>SERIAL_LOCKED\<close> is clear, \<open>serialWrite\<close> and \<open>serialRead\<close> return 0 and
  leave the device, and with it the serial driver, as it was; nothing is stored into the
  caller's buffer.
\<close>

theorem serial_untouched_when_unlocked:
  assumes "stateBooleans s AND SERIAL_LOCKED = 0"
  shows "serialWrite data s = (0, s) \<and> serialRead maxSize s = (0, [], s)"
  using assms by (simp add: serialWrite_def serialRead_def)

theorem serial_untouched_when_unlocked_witness:
  "stateBooleans (device0\<lparr>serial := \<lparr>rxq = ''OK'', txq = [], txFree = 64\<rparr>\<rparr>) AND SERIAL_LOCKED = 0
   \<and> serialWrite ''AT'' (device0\<lparr>serial := \<lparr>rxq = ''OK'', txq = [], txFree = 64\<rparr>\<rparr>)
       = (0, device0\<lparr>serial := \<lparr>rxq = ''OK'', txq = [], txFree = 64\<rparr>\<rparr>)
   \<and> serialRead 2 (device0\<lparr>serial := \<lparr>rxq = ''OK'', txq = [], txFree = 64\<rparr>\<rparr>)
       = (0, [], device0\<lparr>serial := \<lparr>rxq = ''OK'', txq = [], txFree = 64\<rparr>\<rparr>)"
  using serial_untouched_when_unlocked
    [of "device0\<lparr>serial := \<lparr>rxq = ''OK'', txq = [], txFree = 64\<rparr>\<rparr>" "''AT''" 2]
  by (simp add: device0_def LINE_READ_def SERIAL_LOCKED_def)

lemma serial_used_when_locked:
  "serialWrite ''AT'' (snd (serialLock (device0\<lparr>serial := \<lparr>rxq = ''OK'', txq = [], txFree = 64\<rparr>\<rparr>)))
     = (2, device0\<lparr>serial := \<lparr>rxq = ''OK'', txq = ''AT'', txFree = 62\<rparr>, stateBooleans := 0x41\<rparr>)"
  by (simp add: device0_def serialLock_def serialWrite_def serial_write_def LINE_READ_def
      SERIAL_LOCKED_def Let_def)

subsection \<open>parseDnsReply on a failed lookup\<close>

text \<open>
  Claim C3, as amended. On a line that begins with \<^verbatim>\<open>+CDNSGIP: 0\<close>, \<open>parseDnsReply\<close> sets
  \<open>RESET_PENDING\<close>, returns false and changes nothing else: the connection phase stays what
  it was.
\<close>

theorem parseDnsReply_lookup_failed:
  assumes "cstr (lineBuffer s) = ''+CDNSGIP: 0'' @ rest"
  shows "parseDnsReply s = Inr (False, s\<lparr>stateBooleans := stateBooleans s OR RESET_PENDING\<rparr>)
       \<and> connectState (snd (projr (parseDnsReply s))) = connectState s
       \<and> stateBooleans (snd (projr (parseDnsReply s))) AND RESET_PENDING = RESET_PENDING"
proof -
  have "\<not> strncmp_eq (lineBuffer s) ''+CDNSGIP: 1'' 11"
    using assms by (simp add: strncmp_eq_def cstr_Cons cstr_Nil)
  moreover have "strncmp_eq (lineBuffer s) ''+CDNSGIP: 0'' 11"
    using assms by (simp add: strncmp_eq_def cstr_Cons cstr_Nil)
  ultimately show ?thesis by (simp add: parseDnsReply_def)
qed

lemma cstr_line_dns_failed: "cstr line_dns_failed = ''+CDNSGIP: 0'' @ '',8'' @ [CR, LF]"
  by (simp add: line_dns_failed_def cstr_Cons cstr_Nil)

theorem parseDnsReply_lookup_failed_witness:
  "cstr (lineBuffer (device0\<lparr>lineBuffer := line_dns_failed, connectState := connecting\<rparr>))
     = ''+CDNSGIP: 0'' @ '',8'' @ [CR, LF]
   \<and> parseDnsReply (device0\<lparr>lineBuffer := line_dns_failed, connectState := connecting\<rparr>)
     = Inr (False, device0\<lparr>lineBuffer := line_dns_failed, connectState := connecting,
                           stateBooleans := 0x21\<rparr>)"
  using parseDnsReply_lookup_failed
    [of "device0\<lparr>lineBuffer := line_dns_failed, connectState := connecting\<rparr>" "'',8'' @ [CR, LF]"]
  by (simp add: cstr_line_dns_failed) (simp add: device0_def LINE_READ_def RESET_PENDING_def)

text \<open>
  Claim C3 as stated fails: after the reply \<^verbatim>\<open>+CDNSGIP: 0,8\<close> a device in the phase
  \<open>connecting\<close> is still in that phase, not in \<open>dnsError\<close>.
\<close>

theorem parseDnsReply_lookup_failed_counterexample:
  "cstr line_dns_failed = ''+CDNSGIP: 0,8'' @ [CR, LF]
   \<and> connectState (snd (projr (parseDnsReply
        (device0\<lparr>lineBuffer := line_dns_failed, connectState := connecting\<rparr>)))) = connecting
   \<and> connectState (snd (projr (parseDnsReply
        (device0\<lparr>lineBuffer := line_dns_failed, connectState := connecting\<rparr>)))) \<noteq> dnsError"
  by (simp add: parseDnsReply_def strncmp_eq_def cstr_line_dns_failed cstr_Cons cstr_Nil)


subsection \<open>Decimal numbers\<close>

lemma digit_char_roundtrip:
  assumes "d < 10"
  shows "digit_val (digit_char d) = d" and "isdigit (digit_char d)"
    and "\<not> isspace (digit_char d)" and "digit_char d \<noteq> CHR ''-''" and "digit_char d \<noteq> CHR ''+''"
proof -
  have m: "of_char (digit_char d) = (48 + d :: nat)"
    using assms by (simp add: digit_char_def)
  show "digit_val (digit_char d) = d" by (simp add: digit_val_def m)
  show "isdigit (digit_char d)" using assms by (simp add: isdigit_def m)
  have "of_char c \<noteq> (48 + d :: nat)" if "c \<in> set [CHR 0x20, CHR 0x09, LF, CHR 0x0B, CHR 0x0C, CR, CHR ''-'', CHR ''+'']" for c
    using that by auto
  then show "\<not> isspace (digit_char d)" "digit_char d \<noteq> CHR ''-''" "digit_char d \<noteq> CHR ''+''"
    using m by (auto simp: isspace_def)
qed

lemma digit_char_value: "of_char c = (48 + d :: nat) \<Longrightarrow> digit_char d = c"
  by (metis char_of_char digit_char_def)

lemma digit_chars:
  "digit_char 0 = CHR ''0''" "digit_char 1 = CHR ''1''" "digit_char 2 = CHR ''2''"
  "digit_char 3 = CHR ''3''" "digit_char 4 = CHR ''4''" "digit_char 5 = CHR ''5''"
  "digit_char 6 = CHR ''6''" "digit_char 7 = CHR ''7''" "digit_char 8 = CHR ''8''"
  "digit_char 9 = CHR ''9''"
  by (rule digit_char_value, simp)+

lemma utoa_digits: "\<forall>c \<in> set (utoa n). isdigit c"
proof (induction n rule: utoa.induct)
  case (1 n)
  show ?case
  proof (cases "n < 10")
    case True
    then show ?thesis by (subst utoa.simps) (simp add: digit_char_roundtrip)
  next
    case False
    then show ?thesis using 1 by (subst utoa.simps) (simp add: digit_char_roundtrip)
  qed
qed

lemma utoa_nonempty: "utoa n \<noteq> []"
  by (subst utoa.simps) simp

lemma utoa_value: "foldl (\<lambda>a c. 10 * a + digit_val c) 0 (utoa n) = n"
proof (induction n rule: utoa.induct)
  case (1 n)
  show ?case
  proof (cases "n < 10")
    case True
    then show ?thesis by (subst utoa.simps) (simp add: digit_char_roundtrip)
  next
    case False
    then show ?thesis using 1 by (subst utoa.simps) (simp add: digit_char_roundtrip)
  qed
qed

lemma utoa_length: "n < 10 ^ k \<Longrightarrow> 0 < k \<Longrightarrow> length (utoa n) \<le> k"
proof (induction k arbitrary: n)
  case 0
  then show ?case by simp
next
  case (Suc k)
  show ?case
  proof (cases "n < 10")
    case True
    then show ?thesis by (subst utoa.simps) simp
  next
    case False
    then have k: "0 < k" using Suc.prems by (cases k) auto
    have "n div 10 < 10 ^ k" using Suc.prems(1) by (simp add: less_mult_imp_div_less mult.commute)
    then have "length (utoa (n div 10)) \<le> k" using k by (rule Suc.IH)
    then show ?thesis using False by (subst utoa.simps) simp
  qed
qed

lemma sscanf_d_utoa:
  assumes "rest = [] \<or> \<not> isdigit (hd rest)" "int n \<le> INT_MAX"
  shows "sscanf_d (utoa n @ rest) = Some (int n)"
proof -
  obtain c cs where u: "utoa n = c # cs" using utoa_nonempty [of n] by (cases "utoa n") auto
  have dg: "\<forall>c \<in> set (utoa n). isdigit c" by (rule utoa_digits)
  have c: "isdigit c" using dg u by simp
  then obtain d where d: "d < 10" "c = digit_char d"
  proof -
    have "48 \<le> (of_char c :: nat)" "of_char c \<le> (57 :: nat)" using c by (simp_all add: isdigit_def)
    then have "of_char c - 48 < (10::nat)" "of_char c = (48 + (of_char c - 48) :: nat)" by simp_all
    then show ?thesis using that digit_char_value by metis
  qed
  have ns: "\<not> isspace c" "c \<noteq> CHR ''-''" "c \<noteq> CHR ''+''"
    using digit_char_roundtrip(3-5) [OF d(1)] d(2) by simp_all
  have tw: "takeWhile isdigit (utoa n @ rest) = utoa n"
  proof (cases rest)
    case Nil
    then show ?thesis using dg by simp
  next
    case (Cons r rs)
    then have "\<not> isdigit r" using assms(1) by simp
    then show ?thesis using dg Cons by (simp add: takeWhile_tail)
  qed
  have "dropWhile isspace (utoa n @ rest) = utoa n @ rest" using u ns by simp
  moreover have "hd (utoa n @ rest) = c" using u by simp
  ultimately show ?thesis
    using tw utoa_value [of n] utoa_nonempty [of n] assms(2) ns
    by (simp add: sscanf_d_def Let_def INT_MAX_def)
qed

subsection \<open>parseCiprxget4 and parseCiprxget2\<close>

text \<open>
  Claim C5. A line \<^verbatim>\<open>+CIPRXGET: 4,0,N\<close> adds \<open>N\<close> to \<open>bytesToReceive\<close> and changes nothing
  else; a line \<^verbatim>\<open>+CIPRXGET: 2,0,N\<close> subtracts \<open>N\<close> from \<open>bytesToReceive\<close>, adds it to
  \<open>bytesToRead\<close> and clears \<open>LINE_READ\<close>. \<open>N\<close> is a decimal number that fits an
  \<^verbatim>\<open>int\<close> and is followed by something that is not a digit; the counters are 16-bit, so the
  sums are modulo \<open>2 ^ 16\<close>.
\<close>

theorem receive_accounting:
  assumes "rest = [] \<or> \<not> isdigit (hd rest)" and "int n \<le> INT_MAX"
  shows "(cstr (lineBuffer s) = ''+CIPRXGET: 4,0,'' @ utoa n @ rest \<longrightarrow>
            parseCiprxget4 s
              = Inr (True, s\<lparr>bytesToReceive := bytesToReceive s + word_of_nat n\<rparr>))
       \<and> (cstr (lineBuffer s) = ''+CIPRXGET: 2,0,'' @ utoa n @ rest \<longrightarrow>
            parseCiprxget2 s
              = Inr (True, s\<lparr>bytesToReceive := bytesToReceive s - word_of_nat n,
                            bytesToRead := bytesToRead s + word_of_nat n,
                            stateBooleans := stateBooleans s AND NOT LINE_READ\<rparr>)
            \<and> stateBooleans (snd (projr (parseCiprxget2 s))) AND LINE_READ = 0)"
proof -
  have sc: "sscanf_d (utoa n @ rest) = Some (int n)"
    using assms by (rule sscanf_d_utoa)
  have four: "parseCiprxget4 s
              = Inr (True, s\<lparr>bytesToReceive := bytesToReceive s + word_of_nat n\<rparr>)"
    if l: "cstr (lineBuffer s) = ''+CIPRXGET: 4,0,'' @ utoa n @ rest"
  proof -
    have "cstr (drop 15 (lineBuffer s)) = utoa n @ rest"
      using l by (rule cstr_drop) simp
    moreover have "strncmp_eq (lineBuffer s) ''+CIPRXGET: 4,0,'' 15"
      using l by (simp add: strncmp_eq_def cstr_Cons cstr_Nil)
    ultimately show ?thesis using sc by (simp add: parseCiprxget4_def)
  qed
  have two: "parseCiprxget2 s
              = Inr (True, s\<lparr>bytesToReceive := bytesToReceive s - word_of_nat n,
                            bytesToRead := bytesToRead s + word_of_nat n,
                            stateBooleans := stateBooleans s AND NOT LINE_READ\<rparr>)"
    if l: "cstr (lineBuffer s) = ''+CIPRXGET: 2,0,'' @ utoa n @ rest"
  proof -
    have "cstr (drop 15 (lineBuffer s)) = utoa n @ rest"
      using l by (rule cstr_drop) simp
    moreover have "strncmp_eq (lineBuffer s) ''+CIPRXGET: 2,0,'' 15"
      using l by (simp add: strncmp_eq_def cstr_Cons cstr_Nil)
    ultimately show ?thesis using sc by (simp add: parseCiprxget2_def)
  qed
  show ?thesis using four two by (simp add: word_bw_assocs)
qed

lemma utoa_3: "utoa 3 = ''3''"
  by (simp add: utoa.simps digit_chars)

lemma cstr_line_rx4: "cstr line_rx4 = ''+CIPRXGET: 4,0,'' @ utoa 3 @ [CR, LF]"
  by (simp add: line_rx4_def utoa_3 cstr_Cons cstr_Nil)

lemma cstr_line_rx2: "cstr line_rx2 = ''+CIPRXGET: 2,0,'' @ utoa 3 @ [CR, LF]"
  by (simp add: line_rx2_def utoa_3 cstr_Cons cstr_Nil)

theorem receive_accounting_witness:
  "\<not> isdigit (hd [CR, LF]) \<and> int 3 \<le> INT_MAX
   \<and> cstr (lineBuffer (device0\<lparr>lineBuffer := line_rx4\<rparr>)) = ''+CIPRXGET: 4,0,'' @ utoa 3 @ [CR, LF]
   \<and> parseCiprxget4 (device0\<lparr>lineBuffer := line_rx4\<rparr>)
       = Inr (True, device0\<lparr>lineBuffer := line_rx4, bytesToReceive := 3\<rparr>)
   \<and> cstr (lineBuffer (device0\<lparr>lineBuffer := line_rx2, bytesToReceive := 3\<rparr>))
       = ''+CIPRXGET: 2,0,'' @ utoa 3 @ [CR, LF]
   \<and> parseCiprxget2 (device0\<lparr>lineBuffer := line_rx2, bytesToReceive := 3\<rparr>)
       = Inr (True, device0\<lparr>lineBuffer := line_rx2, bytesToReceive := 0, bytesToRead := 3,
                            stateBooleans := 0\<rparr>)"
  using receive_accounting [of "[CR, LF]" 3 "device0\<lparr>lineBuffer := line_rx4\<rparr>"]
    receive_accounting [of "[CR, LF]" 3 "device0\<lparr>lineBuffer := line_rx2, bytesToReceive := 3\<rparr>"]
  by (simp add: cstr_line_rx4 cstr_line_rx2 isdigit_def INT_MAX_def)
    (simp add: device0_def LINE_READ_def)

subsection \<open>prepareSending\<close>

lemma utoa_Size_length: "length (utoa (unat (n :: Size))) \<le> 5"
proof -
  have "unat n < 2 ^ 16" using unsigned_less [of n] by simp
  then have "unat n < 10 ^ 5" by simp
  then show ?thesis by (rule utoa_length) simp
qed

lemma serial_write_fits:
  assumes "length bytes \<le> unat (txFree ser)"
  shows "serial_write bytes ser
           = (bytes, ser\<lparr>txq := txq ser @ bytes, txFree := txFree ser - word_of_nat (length bytes)\<rparr>)"
  using assms by (simp add: serial_write_def Let_def min_def)

text \<open>
  What \<open>prepareSending\<close> does when the driver reports at least 22 free bytes: the count is
  the minimum of the ring's fill and the free space less 22, and the bytes accepted by the
  driver are the command and the decimal count. No line end follows the count.
\<close>

lemma prepareSending_emits:
  assumes "\<not> txFree (serial s) < 22"
  shows "prepareSending s
           = (True, s\<lparr>bytesToWrite := min (availableData (writeBuffer s)) (txFree (serial s) - 22),
                       serial := (serial s)
                         \<lparr>txq := txq (serial s) @ ''AT+CIPSEND=0,''
                                  @ utoa (unat (min (availableData (writeBuffer s))
                                                   (txFree (serial s) - 22))),
                          txFree := txFree (serial s) - 13
                                  - word_of_nat (length (utoa (unat (min (availableData (writeBuffer s))
                                                                         (txFree (serial s) - 22)))))\<rparr>,
                       waitForReply := Some ''>''\<rparr>)"
proof -
  have ge: "22 \<le> unat (txFree (serial s))"
    using assms by (simp add: word_less_nat_alt)
  have w1: "serial_write ''AT+CIPSEND=0,'' (serial s)
              = (''AT+CIPSEND=0,'', (serial s)\<lparr>txq := txq (serial s) @ ''AT+CIPSEND=0,'',
                                               txFree := txFree (serial s) - 13\<rparr>)"
    using ge by (subst serial_write_fits) simp_all
  have "(13 :: Size) \<le> txFree (serial s)"
    using ge by (simp add: word_le_nat_alt)
  then have "unat (txFree (serial s) - 13) = unat (txFree (serial s)) - 13"
    using unat_sub [of 13 "txFree (serial s)"] by simp
  then have fit: "length (utoa (unat m)) \<le> unat (txFree (serial s) - 13)" for m :: Size
    using ge utoa_Size_length [of m] by simp
  have sn: "snprintf_u 6 (unat m) = utoa (unat m)" for m :: Size
    using utoa_Size_length [of m] by (simp add: snprintf_u_def)
  have w2: "serial_write (utoa (unat m))
              ((serial s)\<lparr>txq := txq (serial s) @ ''AT+CIPSEND=0,'', txFree := txFree (serial s) - 13\<rparr>)
            = (utoa (unat m),
               (serial s)\<lparr>txq := txq (serial s) @ ''AT+CIPSEND=0,'' @ utoa (unat m),
                           txFree := txFree (serial s) - 13 - word_of_nat (length (utoa (unat m)))\<rparr>)"
    for m :: Size
    using fit [of m] by (subst serial_write_fits) simp_all
  show ?thesis
  proof (cases "availableData (writeBuffer s) > txFree (serial s) - 22")
    case True
    then have "min (availableData (writeBuffer s)) (txFree (serial s) - 22) = txFree (serial s) - 22"
      by (auto simp: min_def)
    then show ?thesis
      using assms True
      by (simp add: prepareSending_def serial_spaceAvailable_def MIN_SPACE_AVAILABLE_def Let_def
          w1 sn w2)
  next
    case False
    then have "min (availableData (writeBuffer s)) (txFree (serial s) - 22)
                 = availableData (writeBuffer s)"
      by (auto simp: min_def)
    then show ?thesis
      using assms False
      by (simp add: prepareSending_def serial_spaceAvailable_def MIN_SPACE_AVAILABLE_def Let_def
          w1 sn w2)
  qed
qed

lemma prepareSending_no_space:
  assumes "txFree (serial s) < 22"
  shows "prepareSending s = (False, s)"
  using assms by (simp add: prepareSending_def serial_spaceAvailable_def MIN_SPACE_AVAILABLE_def)

lemma utoa_5: "utoa 5 = ''5''"
  by (simp add: utoa.simps digit_chars)

text \<open>
  Claim C6, evaluated where the code departs from it. With \<^verbatim>\<open>hello\<close> in the write ring and
  64 free bytes in the driver, \<open>prepareSending\<close> returns true, sets \<open>bytesToWrite\<close> to 5 and
  \<open>waitForReply\<close> to \<^verbatim>\<open>>\<close>, and hands the driver the 14 bytes \<^verbatim>\<open>AT+CIPSEND=0,5\<close>: the
  carriage return and line feed that end every other command of the engine are not written.
\<close>

theorem prepareSending_hello:
  "prepareSending device_hello
     = (True, device_hello\<lparr>bytesToWrite := 5,
                            serial := \<lparr>rxq = [], txq = ''AT+CIPSEND=0,5'', txFree = 50\<rparr>,
                            waitForReply := Some ''>''\<rparr>)
   \<and> txq (serial (snd (prepareSending device_hello))) \<noteq> ''AT+CIPSEND=0,5'' @ [CR, LF]"
proof -
  have f: "\<not> txFree (serial device_hello) < 22"
    by (simp add: device_hello_def device0_def)
  have "min (availableData (writeBuffer device_hello)) (txFree (serial device_hello) - 22) = 5"
    by (simp add: device_hello_def device0_def)
  then show ?thesis
    using prepareSending_emits [OF f]
    by (simp add: utoa_5) (simp add: device_hello_def device0_def)
qed


subsection \<open>sendData\<close>

lemma serial_write_bytes_txq: "txq (serial_write_bytes bytes ser) = txq ser @ bytes"
proof -
  have "txq (foldl (\<lambda>s c. serial_write_byte c s) ser bytes) = txq ser @ bytes"
    by (induction bytes arbitrary: ser) (simp_all add: serial_write_byte_def)
  then show ?thesis by (simp add: serial_write_bytes_def)
qed

lemma serial_write_bytes_rxq: "rxq (serial_write_bytes bytes ser) = rxq ser"
proof -
  have "rxq (foldl (\<lambda>s c. serial_write_byte c s) ser bytes) = rxq ser"
    by (induction bytes arbitrary: ser) (simp_all add: serial_write_byte_def)
  then show ?thesis by (simp add: serial_write_bytes_def)
qed

text \<open>
  \<open>sendData\<close> pulls as many bytes as \<open>bytesToWrite\<close> says, writes each to the driver, and
  leaves \<open>bytesToWrite\<close> one below zero, that is at \<open>0xFFFF\<close>.
\<close>

lemma sendData_result:
  "sendData s
     = s\<lparr>bytesToWrite := - 1,
         writeBuffer := snd (pull_many (writeBufferSize s) (unat (bytesToWrite s)) (writeBuffer s)),
         serial := serial_write_bytes
                     (fst (pull_many (writeBufferSize s) (unat (bytesToWrite s)) (writeBuffer s)))
                     (serial s)\<rparr>"
proof (induction s rule: sendData.induct)
  case (1 s)
  show ?case
  proof (cases "bytesToWrite s = 0")
    case True
    then show ?thesis
      by (subst sendData.simps) (simp add: Let_def serial_write_bytes_def)
  next
    case False
    obtain c wb where p: "pull (writeBufferSize s) (writeBuffer s) = (c, wb)"
      by (cases "pull (writeBufferSize s) (writeBuffer s)")
    let ?s1 = "s\<lparr>bytesToWrite := bytesToWrite s - 1\<rparr>"
    let ?s2 = "?s1\<lparr>writeBuffer := wb, serial := serial_write_byte c (serial ?s1)\<rparr>"
    have u: "unat (bytesToWrite s) = Suc (unat (bytesToWrite s - 1))"
      using False unat_minus_one [OF False] by (simp add: unat_gt_0)
    have ih: "sendData ?s2
      = ?s2\<lparr>bytesToWrite := - 1,
             writeBuffer := snd (pull_many (writeBufferSize ?s2) (unat (bytesToWrite ?s2)) (writeBuffer ?s2)),
             serial := serial_write_bytes
                     (fst (pull_many (writeBufferSize ?s2) (unat (bytesToWrite ?s2)) (writeBuffer ?s2)))
                     (serial ?s2)\<rparr>"
      using False p by (intro "1.IH" [of "bytesToWrite s" ?s1 "(c, wb)" c wb]) simp_all
    have pm: "pull_many (writeBufferSize s) (unat (bytesToWrite s)) (writeBuffer s)
                = (c # fst (pull_many (writeBufferSize s) (unat (bytesToWrite s - 1)) wb),
                   snd (pull_many (writeBufferSize s) (unat (bytesToWrite s - 1)) wb))"
      by (subst u) (simp add: p split_beta Let_def)
    have "sendData s = sendData ?s2"
      using False p by (subst sendData.simps) (simp add: Let_def)
    also note ih
    finally show ?thesis
      by (simp add: pm serial_write_bytes_def)
  qed
qed

lemma sendData_bytesToWrite: "bytesToWrite (sendData s) = 0xFFFF"
  by (subst sendData_result) simp

lemma sendData_count:
  "length (txq (serial (sendData s))) = length (txq (serial s)) + unat (bytesToWrite s)"
  by (subst sendData_result) (simp add: serial_write_bytes_txq pull_many_length)

lemma sendData_fifo:
  assumes "ring_ok (writeBufferSize s) (writeBuffer s)"
    and "bytesToWrite s \<le> availableData (writeBuffer s)"
  shows "txq (serial (sendData s))
           = txq (serial s) @ take (unat (bytesToWrite s)) (queued (writeBufferSize s) (writeBuffer s))"
  using assms
  by (subst sendData_result) (simp add: serial_write_bytes_txq pull_many_queued word_le_nat_alt)

text \<open>The sibling loop of \<open>receive\<close> counts its counter down to exactly zero.\<close>

lemma receive_loop_bytesToRead: "bytesToRead (receive_loop s) = 0"
proof (induction s rule: receive_loop.induct)
  case (1 s)
  show ?case
  proof (cases "bytesToRead s = 0")
    case True
    then show ?thesis by (subst receive_loop.simps) simp
  next
    case False
    then show ?thesis
      using "1.IH" [OF False refl]
      by (subst receive_loop.simps) (simp add: split_beta)
  qed
qed

lemma resetStates_bytesToWrite: "bytesToWrite (resetStates s) = 0"
  by (simp add: resetStates_def)

lemma five_Suc: "(5 :: nat) = Suc (Suc (Suc (Suc (Suc 0))))"
  by simp

lemma pull_many_hello:
  "pull_many 8 5 \<lparr>writeHead = 5, readHead = 0, availableData = 5,
                   buffer = [CHR ''h'', CHR ''e'', CHR ''l'', CHR ''l'', CHR ''o'', NUL, NUL, NUL]\<rparr>
     = (''hello'', \<lparr>writeHead = 5, readHead = 5, availableData = 0,
                    buffer = [CHR ''h'', CHR ''e'', CHR ''l'', CHR ''l'', CHR ''o'', NUL, NUL, NUL]\<rparr>)"
  by (subst five_Suc)
    (simp add: pull_def incrementOrResetHead_def Let_def word_le_nat_alt word_less_nat_alt)

text \<open>
  Claim C2, evaluated where the code departs from it. After \<open>prepareSending\<close> on the device
  with \<^verbatim>\<open>hello\<close> in the write ring, \<open>bytesToWrite\<close> is 5; \<open>sendData\<close> pulls the five bytes and
  writes them to the driver after the command, as the claim says, and then \<open>bytesToWrite\<close> is
  65535, not zero.
\<close>

theorem sendData_hello:
  "bytesToWrite (snd (prepareSending device_hello)) = 5
   \<and> txq (serial (sendData (snd (prepareSending device_hello)))) = ''AT+CIPSEND=0,5hello''
   \<and> availableData (writeBuffer (sendData (snd (prepareSending device_hello)))) = 0
   \<and> bytesToWrite (sendData (snd (prepareSending device_hello))) = 65535
   \<and> bytesToWrite (sendData (snd (prepareSending device_hello))) \<noteq> 0"
proof -
  have f: "\<not> txFree (serial device_hello) < 22"
    by (simp add: device_hello_def device0_def)
  have m: "min (availableData (writeBuffer device_hello)) (txFree (serial device_hello) - 22) = 5"
    by (simp add: device_hello_def device0_def)
  have p: "snd (prepareSending device_hello)
     = device_hello\<lparr>bytesToWrite := 5,
                    serial := \<lparr>rxq = [], txq = ''AT+CIPSEND=0,5'', txFree = 50\<rparr>,
                    waitForReply := Some ''>''\<rparr>"
    using prepareSending_emits [OF f] m
    by (simp add: utoa_5) (simp add: device_hello_def device0_def)
  show ?thesis
    unfolding p
    by (subst sendData_result)+
      (simp add: device_hello_def device0_def pull_many_hello serial_write_bytes_txq)
qed

subsection \<open>parseDnsReply on a successful lookup\<close>




lemma index_Suc: "(word_of_nat k :: 8 word) + 1 = word_of_nat (Suc k)"
  by simp



text \<open>At index 255 of a longer line the counter of the first loop wraps to 0.\<close>

lemma dns_count_wraps:
  assumes "255 < length lb" "lb ! 255 \<noteq> NUL" "lb ! 255 \<noteq> QUOTE"
  shows "dns_count lb 255 q = dns_count lb 0 q"
proof -
  have z: "(256 :: 8 word) = 0" by simp
  show ?thesis using assms by (subst dns_count.simps) (simp add: z)
qed













subsection \<open>fillLineBuffer\<close>

lemma bytesAvailable_zero_iff:
  assumes "length (rxq ser) < 65536"
  shows "serial_bytesAvailable ser = 0 \<longleftrightarrow> rxq ser = []"
proof -
  have "unat (word_of_nat (length (rxq ser)) :: 16 word) = length (rxq ser)"
    using assms by (simp add: unat_of_nat)
  then have "(word_of_nat (length (rxq ser)) :: 16 word) = 0 \<longleftrightarrow> length (rxq ser) = 0"
    by (metis unat_0 word_unat_eq_iff)
  then show ?thesis by (simp add: serial_bytesAvailable_def)
qed

lemma store_step:
  assumes "k < length lb"
  shows "take (Suc k) (lb[k := x]) @ ys @ drop (Suc k + length ys) (lb[k := x])
           = take k lb @ (x # ys) @ drop (k + length (x # ys)) lb"
  using assms by (simp add: take_Suc_conv_app_nth)

text \<open>The loop when no byte ends the line: everything is consumed and stored.\<close>

lemma fillLineBuffer_loop_drains:
  assumes "rxq (serial s) = rx" "length rx < 65536"
    and "\<forall>x \<in> set rx. \<not> terminator x" "lbFill s + length rx < L" "L < length (lineBuffer s)"
  shows "fillLineBuffer_loop L s
           = (False, s\<lparr>serial := (serial s)\<lparr>rxq := []\<rparr>,
                       lineBuffer := take (lbFill s) (lineBuffer s) @ rx
                                     @ drop (lbFill s + length rx) (lineBuffer s),
                       lbFill := lbFill s + length rx\<rparr>)"
  using assms
proof (induction rx arbitrary: s)
  case Nil
  then have "serial_bytesAvailable (serial s) = 0"
    by (simp add: serial_bytesAvailable_def)
  moreover have "(serial s)\<lparr>rxq := []\<rparr> = serial s" using Nil.prems(1) by simp
  ultimately show ?case by (subst fillLineBuffer_loop.simps) simp
next
  case (Cons x rx)
  let ?s1 = "s\<lparr>serial := (serial s)\<lparr>rxq := rx\<rparr>,
               lineBuffer := (lineBuffer s)[lbFill s := x], lbFill := lbFill s + 1\<rparr>"
  have av: "serial_bytesAvailable (serial s) \<noteq> 0"
    using Cons.prems(1,2) bytesAvailable_zero_iff [of "serial s"] by simp
  have rd: "serial_read_byte (serial s) = (x, (serial s)\<lparr>rxq := rx\<rparr>)"
    using Cons.prems(1) by (simp add: serial_read_byte_def)
  have nt: "x \<noteq> LF" "x \<noteq> CHR ''>''" using Cons.prems(3) by (auto simp: terminator_def)
  have k: "lbFill s < length (lineBuffer s)" "lbFill s + 1 \<noteq> L" using Cons.prems(4,5) by simp_all
  have step: "fillLineBuffer_loop L s = fillLineBuffer_loop L ?s1"
    using av rd nt k(2) by (subst fillLineBuffer_loop.simps) (simp add: Let_def)
  have "fillLineBuffer_loop L ?s1
           = (False, ?s1\<lparr>serial := (serial ?s1)\<lparr>rxq := []\<rparr>,
                       lineBuffer := take (lbFill ?s1) (lineBuffer ?s1) @ rx
                                     @ drop (lbFill ?s1 + length rx) (lineBuffer ?s1),
                       lbFill := lbFill ?s1 + length rx\<rparr>)"
    using Cons.prems by (intro Cons.IH) simp_all
  then show ?case
    using step store_step [OF k(1), of x rx] by simp
qed

text \<open>The loop when a byte ends the line: it stops there and leaves the rest unread.\<close>

lemma fillLineBuffer_loop_yields:
  assumes "rxq (serial s) = pre @ c # post" "length (rxq (serial s)) < 65536"
    and "\<forall>x \<in> set pre. \<not> terminator x" "lbFill s + length pre < L" "L < length (lineBuffer s)"
    and "terminator c \<or> lbFill s + length pre + 1 = L"
  shows "fillLineBuffer_loop L s
           = (True, s\<lparr>serial := (serial s)\<lparr>rxq := post\<rparr>,
                      lineBuffer := take (lbFill s) (lineBuffer s) @ pre @ [c, NUL]
                                    @ drop (lbFill s + length pre + 2) (lineBuffer s),
                      lbFill := 0\<rparr>)"
  using assms
proof (induction pre arbitrary: s)
  case Nil
  have av: "serial_bytesAvailable (serial s) \<noteq> 0"
    using Nil.prems(1,2) bytesAvailable_zero_iff [of "serial s"] by simp
  have rd: "serial_read_byte (serial s) = (c, (serial s)\<lparr>rxq := post\<rparr>)"
    using Nil.prems(1) by (simp add: serial_read_byte_def)
  have stop: "c = LF \<or> c = CHR ''>'' \<or> lbFill s + 1 = L"
    using Nil.prems(6) by (auto simp: terminator_def)
  have k: "lbFill s < length (lineBuffer s)" "Suc (lbFill s) < length (lineBuffer s)"
    using Nil.prems(4,5) by simp_all
  have "(lineBuffer s)[lbFill s := c, Suc (lbFill s) := NUL]
          = take (Suc (lbFill s)) ((lineBuffer s)[lbFill s := c]) @ NUL
            # drop (Suc (Suc (lbFill s))) ((lineBuffer s)[lbFill s := c])"
    using k(2) upd_conv_take_nth_drop [of "Suc (lbFill s)" "(lineBuffer s)[lbFill s := c]" NUL]
    by simp
  also have "\<dots> = take (lbFill s) (lineBuffer s) @ [c, NUL] @ drop (lbFill s + 2) (lineBuffer s)"
    using k(1) by (simp add: take_Suc_conv_app_nth)
  finally have "(lineBuffer s)[lbFill s := c, Suc (lbFill s) := NUL]
          = take (lbFill s) (lineBuffer s) @ [c, NUL] @ drop (lbFill s + 2) (lineBuffer s)" .
  then show ?case
    using av rd stop by (subst fillLineBuffer_loop.simps) (auto simp: Let_def)
next
  case (Cons x pre)
  let ?s1 = "s\<lparr>serial := (serial s)\<lparr>rxq := pre @ c # post\<rparr>,
               lineBuffer := (lineBuffer s)[lbFill s := x], lbFill := lbFill s + 1\<rparr>"
  have av: "serial_bytesAvailable (serial s) \<noteq> 0"
    using Cons.prems(1,2) bytesAvailable_zero_iff [of "serial s"] by simp
  have rd: "serial_read_byte (serial s) = (x, (serial s)\<lparr>rxq := pre @ c # post\<rparr>)"
    using Cons.prems(1) by (simp add: serial_read_byte_def)
  have nt: "x \<noteq> LF" "x \<noteq> CHR ''>''" using Cons.prems(3) by (auto simp: terminator_def)
  have k: "lbFill s < length (lineBuffer s)" "lbFill s + 1 \<noteq> L" using Cons.prems(4,5) by simp_all
  have step: "fillLineBuffer_loop L s = fillLineBuffer_loop L ?s1"
    using av rd nt k(2) by (subst fillLineBuffer_loop.simps) (simp add: Let_def)
  have "fillLineBuffer_loop L ?s1
           = (True, ?s1\<lparr>serial := (serial ?s1)\<lparr>rxq := post\<rparr>,
                      lineBuffer := take (lbFill ?s1) (lineBuffer ?s1) @ pre @ [c, NUL]
                                    @ drop (lbFill ?s1 + length pre + 2) (lineBuffer ?s1),
                      lbFill := 0\<rparr>)"
    using Cons.prems by (intro Cons.IH) simp_all
  then show ?case
    using step store_step [OF k(1), of x "pre @ [c, NUL]"] by simp
qed

lemma first_stop_split:
  fixes rx :: string
  assumes "\<exists>i < length rx. terminator (rx ! i) \<or> k + i + 1 = L" "k < L"
  shows "\<exists>pre c post. rx = pre @ c # post \<and> (\<forall>x \<in> set pre. \<not> terminator x)
           \<and> k + length pre < L \<and> (terminator c \<or> k + length pre + 1 = L)"
proof -
  define P where "P i \<longleftrightarrow> i < length rx \<and> (terminator (rx ! i) \<or> k + i + 1 = L)" for i
  have "\<exists>i. P i" using assms(1) by (auto simp: P_def)
  then obtain i where i: "P i" "\<forall>j < i. \<not> P j"
    using exists_least_iff [of P] by auto
  have il: "i < length rx" using i(1) by (simp add: P_def)
  have rx: "rx = take i rx @ rx ! i # drop (Suc i) rx"
    using il by (rule id_take_nth_drop)
  have clean: "\<forall>x \<in> set (take i rx). \<not> terminator x"
  proof
    fix x assume "x \<in> set (take i rx)"
    then obtain j where "j < i" "x = rx ! j"
      using il by (auto simp: in_set_conv_nth)
    then show "\<not> terminator x" using i(2) il by (auto simp: P_def)
  qed
  have nj: "k + j + 1 \<noteq> L" if "j < i" for j using that i(2) il by (auto simp: P_def)
  have "k + i < L"
  proof (rule ccontr)
    assume "\<not> k + i < L"
    then have "L - k - 1 < i" "k + (L - k - 1) + 1 = L" using assms(2) by simp_all
    then show False using nj by blast
  qed
  then show ?thesis
    using rx clean i(1) il
    by (intro exI [of _ "take i rx"] exI [of _ "rx ! i"] exI [of _ "drop (Suc i) rx"])
      (simp add: P_def)
qed

lemma no_stop_drains:
  fixes rx :: string
  assumes "\<forall>i < length rx. \<not> terminator (rx ! i) \<and> k + i + 1 \<noteq> L" "k < L"
  shows "(\<forall>x \<in> set rx. \<not> terminator x) \<and> k + length rx < L"
proof
  show "\<forall>x \<in> set rx. \<not> terminator x" using assms(1) by (auto simp: in_set_conv_nth)
  show "k + length rx < L"
  proof (rule ccontr)
    assume "\<not> k + length rx < L"
    then have "L - k - 1 < length rx" "k + (L - k - 1) + 1 = L" using assms(2) by simp_all
    then show False using assms(1) by blast
  qed
qed

text \<open>
  Claim C7. The device is between two calls of the line reader: the fill cursor is below
  \<open>L = LINE_MAX_LENGTH\<close>, the line buffer has \<open>L + 1\<close> chars, and the bytes already stored
  hold no terminator. With \<open>LINE_READ\<close> clear nothing is read. With \<open>LINE_READ\<close> set,
  \<open>fillLineBuffer\<close> returns true exactly when one of the waiting bytes is a line feed or
  \<^verbatim>\<open>>\<close> or fills the buffer to \<open>L\<close>. It then has consumed the bytes up to the first such
  byte \<open>c\<close> and no more, has stored them followed by a NUL, and has reset the cursor; the line
  it yields holds no terminator before its last byte. Otherwise it consumes and stores all
  waiting bytes, advances the cursor by their number and returns false.
\<close>

theorem fillLineBuffer_line:
  assumes "lbFill s < L" and "length (lineBuffer s) = L + 1"
    and "length (rxq (serial s)) < 65536"
    and "\<forall>x \<in> set (take (lbFill s) (lineBuffer s)). \<not> terminator x"
  shows "(stateBooleans s AND LINE_READ = 0 \<longrightarrow> fillLineBuffer L s = (False, s))
       \<and> (stateBooleans s AND LINE_READ \<noteq> 0 \<longrightarrow>
            (fst (fillLineBuffer L s) \<longleftrightarrow>
               (\<exists>i < length (rxq (serial s)).
                   terminator (rxq (serial s) ! i) \<or> lbFill s + i + 1 = L))
          \<and> (rxq (serial s) = pre @ c # post \<and> (\<forall>x \<in> set pre. \<not> terminator x)
              \<and> lbFill s + length pre < L \<and> (terminator c \<or> lbFill s + length pre + 1 = L) \<longrightarrow>
                fillLineBuffer L s
                  = (True, s\<lparr>serial := (serial s)\<lparr>rxq := post\<rparr>,
                             lineBuffer := take (lbFill s) (lineBuffer s) @ pre @ [c, NUL]
                                           @ drop (lbFill s + length pre + 2) (lineBuffer s),
                             lbFill := 0\<rparr>)
                \<and> (\<forall>x \<in> set (take (lbFill s) (lineBuffer s) @ pre). \<not> terminator x))
          \<and> ((\<forall>i < length (rxq (serial s)).
                  \<not> terminator (rxq (serial s) ! i) \<and> lbFill s + i + 1 \<noteq> L) \<longrightarrow>
                fillLineBuffer L s
                  = (False, s\<lparr>serial := (serial s)\<lparr>rxq := []\<rparr>,
                              lineBuffer := take (lbFill s) (lineBuffer s) @ rxq (serial s)
                                            @ drop (lbFill s + length (rxq (serial s))) (lineBuffer s),
                              lbFill := lbFill s + length (rxq (serial s))\<rparr>)))"
proof (intro conjI impI)
  let ?rx = "rxq (serial s)" and ?k = "lbFill s"
  have len: "L < length (lineBuffer s)" using assms(2) by simp
  show "fillLineBuffer L s = (False, s)" if "stateBooleans s AND LINE_READ = 0"
    using that by (simp add: fillLineBuffer_def)
  have yields: "fillLineBuffer L s
                  = (True, s\<lparr>serial := (serial s)\<lparr>rxq := post'\<rparr>,
                             lineBuffer := take ?k (lineBuffer s) @ pre' @ [c', NUL]
                                           @ drop (?k + length pre' + 2) (lineBuffer s),
                             lbFill := 0\<rparr>)"
    if "stateBooleans s AND LINE_READ \<noteq> 0" "?rx = pre' @ c' # post'" "\<forall>x \<in> set pre'. \<not> terminator x"
      "?k + length pre' < L" "terminator c' \<or> ?k + length pre' + 1 = L" for pre' c' post'
    using that assms(3) len
    by (simp add: fillLineBuffer_def fillLineBuffer_loop_yields [where pre = pre' and c = c' and post = post'])
  have drains: "fillLineBuffer L s
                  = (False, s\<lparr>serial := (serial s)\<lparr>rxq := []\<rparr>,
                              lineBuffer := take ?k (lineBuffer s) @ ?rx
                                            @ drop (?k + length ?rx) (lineBuffer s),
                              lbFill := ?k + length ?rx\<rparr>)"
    if "stateBooleans s AND LINE_READ \<noteq> 0" "\<forall>i < length ?rx. \<not> terminator (?rx ! i) \<and> ?k + i + 1 \<noteq> L"
    using that(1) no_stop_drains [OF that(2) assms(1)] assms(3) len
    by (simp add: fillLineBuffer_def fillLineBuffer_loop_drains [where rx = ?rx])
  show "fst (fillLineBuffer L s) \<longleftrightarrow> (\<exists>i < length ?rx. terminator (?rx ! i) \<or> ?k + i + 1 = L)"
    if lr: "stateBooleans s AND LINE_READ \<noteq> 0"
  proof (cases "\<exists>i < length ?rx. terminator (?rx ! i) \<or> ?k + i + 1 = L")
    case True
    then obtain pre' c' post' where "?rx = pre' @ c' # post'" "\<forall>x \<in> set pre'. \<not> terminator x"
        "?k + length pre' < L" "terminator c' \<or> ?k + length pre' + 1 = L"
      using first_stop_split [OF _ assms(1), of ?rx] by blast
    then show ?thesis using True yields [OF lr] by simp
  next
    case False
    then have "\<forall>i < length ?rx. \<not> terminator (?rx ! i) \<and> ?k + i + 1 \<noteq> L" by blast
    then show ?thesis using False drains [OF lr] by simp
  qed
  show "fillLineBuffer L s
                  = (True, s\<lparr>serial := (serial s)\<lparr>rxq := post\<rparr>,
                             lineBuffer := take ?k (lineBuffer s) @ pre @ [c, NUL]
                                           @ drop (?k + length pre + 2) (lineBuffer s),
                             lbFill := 0\<rparr>)"
    if "stateBooleans s AND LINE_READ \<noteq> 0"
      "?rx = pre @ c # post \<and> (\<forall>x \<in> set pre. \<not> terminator x)
              \<and> ?k + length pre < L \<and> (terminator c \<or> ?k + length pre + 1 = L)"
    using that by (intro yields) simp_all
  show "\<forall>x \<in> set (take ?k (lineBuffer s) @ pre). \<not> terminator x"
    if "?rx = pre @ c # post \<and> (\<forall>x \<in> set pre. \<not> terminator x)
              \<and> ?k + length pre < L \<and> (terminator c \<or> ?k + length pre + 1 = L)"
    using that assms(4) by auto
  show "fillLineBuffer L s
                  = (False, s\<lparr>serial := (serial s)\<lparr>rxq := []\<rparr>,
                              lineBuffer := take ?k (lineBuffer s) @ ?rx
                                            @ drop (?k + length ?rx) (lineBuffer s),
                              lbFill := ?k + length ?rx\<rparr>)"
    if "stateBooleans s AND LINE_READ \<noteq> 0" "\<forall>i < length ?rx. \<not> terminator (?rx ! i) \<and> ?k + i + 1 \<noteq> L"
    using that by (rule drains)
qed

text \<open>A call that returns false leaves the device as the next call needs it.\<close>

lemma fillLineBuffer_drain_keeps:
  assumes "lbFill s < L" "length (lineBuffer s) = L + 1"
    and "\<forall>x \<in> set (take (lbFill s) (lineBuffer s)). \<not> terminator x"
    and "\<forall>x \<in> set (rxq (serial s)). \<not> terminator x" "lbFill s + length (rxq (serial s)) < L"
    and "s' = s\<lparr>serial := (serial s)\<lparr>rxq := []\<rparr>,
                lineBuffer := take (lbFill s) (lineBuffer s) @ rxq (serial s)
                              @ drop (lbFill s + length (rxq (serial s))) (lineBuffer s),
                lbFill := lbFill s + length (rxq (serial s))\<rparr>"
  shows "lbFill s' < L \<and> length (lineBuffer s') = L + 1
       \<and> (\<forall>x \<in> set (take (lbFill s') (lineBuffer s')). \<not> terminator x)"
  using assms by auto

lemma stop_free_OK: "\<forall>i < length ''OK''. \<not> terminator (''OK'' ! i) \<and> 0 + i + 1 \<noteq> (7 :: nat)"
  by (auto simp: terminator_def less_Suc_eq)

theorem fillLineBuffer_line_witness:
  "lbFill device0 < 7 \<and> length (lineBuffer device0) = 7 + 1
   \<and> stateBooleans device0 AND LINE_READ \<noteq> 0
   \<and> fillLineBuffer 7 (device0\<lparr>serial := \<lparr>rxq = ''OK'' @ [CR, LF] @ ''AT'', txq = [], txFree = 64\<rparr>\<rparr>)
       = (True, device0\<lparr>serial := \<lparr>rxq = ''AT'', txq = [], txFree = 64\<rparr>,
                        lineBuffer := ''OK'' @ [CR, LF, NUL, NUL, NUL, NUL]\<rparr>)
   \<and> fillLineBuffer 7 (device0\<lparr>serial := \<lparr>rxq = ''ABCDEFGHI'', txq = [], txFree = 64\<rparr>\<rparr>)
       = (True, device0\<lparr>serial := \<lparr>rxq = ''HI'', txq = [], txFree = 64\<rparr>,
                        lineBuffer := ''ABCDEFG'' @ [NUL]\<rparr>)
   \<and> fillLineBuffer 7 (device0\<lparr>serial := \<lparr>rxq = ''OK'', txq = [], txFree = 64\<rparr>\<rparr>)
       = (False, device0\<lparr>serial := \<lparr>rxq = [], txq = [], txFree = 64\<rparr>,
                         lineBuffer := ''OK'' @ [NUL, NUL, NUL, NUL, NUL, NUL], lbFill := 2\<rparr>)
   \<and> fillLineBuffer 7 (device0\<lparr>stateBooleans := 0, serial := \<lparr>rxq = ''OK'', txq = [], txFree = 64\<rparr>\<rparr>)
       = (False, device0\<lparr>stateBooleans := 0, serial := \<lparr>rxq = ''OK'', txq = [], txFree = 64\<rparr>\<rparr>)"
proof -
  have lr: "stateBooleans device0 AND LINE_READ \<noteq> 0"
    by (simp add: device0_def LINE_READ_def)
  have 1: "fillLineBuffer 7 (device0\<lparr>serial := \<lparr>rxq = ''OK'' @ [CR, LF] @ ''AT'', txq = [], txFree = 64\<rparr>\<rparr>)
       = (True, device0\<lparr>serial := \<lparr>rxq = ''AT'', txq = [], txFree = 64\<rparr>,
                        lineBuffer := ''OK'' @ [CR, LF, NUL, NUL, NUL, NUL]\<rparr>)"
    using fillLineBuffer_line
      [of "device0\<lparr>serial := \<lparr>rxq = ''OK'' @ [CR, LF] @ ''AT'', txq = [], txFree = 64\<rparr>\<rparr>" 7
        "''OK'' @ [CR]" LF "''AT''"] lr
    by (simp add: terminator_def) (simp add: device0_def)
  have 2: "fillLineBuffer 7 (device0\<lparr>serial := \<lparr>rxq = ''ABCDEFGHI'', txq = [], txFree = 64\<rparr>\<rparr>)
       = (True, device0\<lparr>serial := \<lparr>rxq = ''HI'', txq = [], txFree = 64\<rparr>,
                        lineBuffer := ''ABCDEFG'' @ [NUL]\<rparr>)"
    using fillLineBuffer_line
      [of "device0\<lparr>serial := \<lparr>rxq = ''ABCDEFGHI'', txq = [], txFree = 64\<rparr>\<rparr>" 7
        "''ABCDEF''" "CHR ''G''" "''HI''"] lr
    by (simp add: terminator_def) (simp add: device0_def)
  have 3: "fillLineBuffer 7 (device0\<lparr>serial := \<lparr>rxq = ''OK'', txq = [], txFree = 64\<rparr>\<rparr>)
       = (False, device0\<lparr>serial := \<lparr>rxq = [], txq = [], txFree = 64\<rparr>,
                         lineBuffer := ''OK'' @ [NUL, NUL, NUL, NUL, NUL, NUL], lbFill := 2\<rparr>)"
    using fillLineBuffer_line
      [of "device0\<lparr>serial := \<lparr>rxq = ''OK'', txq = [], txFree = 64\<rparr>\<rparr>" 7] lr stop_free_OK
    by (simp add: device0_def)
  have 4: "fillLineBuffer 7 (device0\<lparr>stateBooleans := 0, serial := \<lparr>rxq = ''OK'', txq = [], txFree = 64\<rparr>\<rparr>)
       = (False, device0\<lparr>stateBooleans := 0, serial := \<lparr>rxq = ''OK'', txq = [], txFree = 64\<rparr>\<rparr>)"
    using fillLineBuffer_line
      [of "device0\<lparr>stateBooleans := 0, serial := \<lparr>rxq = ''OK'', txq = [], txFree = 64\<rparr>\<rparr>" 7]
    by (simp add: device0_def)
  show ?thesis using 1 2 3 4 lr by (simp add: device0_def)
qed

end
